theory Spec2Isabelle
  imports Main "HOL-Library.Sublist"
begin

section \<open>Python text primitives\<close>

text \<open>
  Decoded file contents are \<^typ>\<open>string\<close>s: lists of characters with code points
  below 256, which is exactly what the Latin-1 fallback of the scanner produces and covers
  every ASCII manifest. A Python value that is either a \<open>str\<close> or \<open>None\<close> (the result of
  \<open>match.group(i)\<close>) is a \<open>pyval\<close>.
\<close>

datatype pyval = PyNone | PyStr string

text \<open>\<open>x or d\<close>: the default replaces \<open>None\<close> and the empty string, the two falsy values.\<close>

fun py_or :: "pyval \<Rightarrow> pyval \<Rightarrow> pyval" where
  "py_or PyNone d = d"
| "py_or (PyStr s) d = (if s = [] then d else PyStr s)"

text \<open>
  \<open>str.isspace\<close> on one character, which is also the class \<open>\s\<close> of \<open>re\<close> on \<open>str\<close>
  patterns: below code point 256 these are TAB, LF, VT, FF, CR, the separators
  0x1C..0x1F, the space, NEL (0x85) and the no-break space (0xA0).
\<close>

definition isspace :: "char \<Rightarrow> bool" where
  "isspace c \<longleftrightarrow> c \<in> set [CHR 0x09, CHR 0x0A, CHR 0x0B, CHR 0x0C, CHR 0x0D,
      CHR 0x1C, CHR 0x1D, CHR 0x1E, CHR 0x1F, CHR 0x20, CHR 0x85, CHR 0xA0]"

text \<open>\<open>s.strip()\<close> and \<open>s.strip(chars)\<close>: drop the given characters from both ends.\<close>

definition strip_with :: "(char \<Rightarrow> bool) \<Rightarrow> string \<Rightarrow> string" where
  "strip_with f s = rev (dropWhile f (rev (dropWhile f s)))"

definition strip :: "string \<Rightarrow> string" where
  "strip s = strip_with isspace s"

text \<open>\<open>s.startswith(p)\<close>.\<close>

definition startswith :: "string \<Rightarrow> string \<Rightarrow> bool" where
  "startswith s p \<longleftrightarrow> prefix p s"

text \<open>\<open>sub in s\<close>: \<open>sub\<close> occurs in \<open>s\<close> as a contiguous substring.\<close>

fun contains :: "string \<Rightarrow> string \<Rightarrow> bool" where
  "contains sub [] \<longleftrightarrow> sub = []"
| "contains sub (x # xs) \<longleftrightarrow> prefix sub (x # xs) \<or> contains sub xs"

text \<open>
  \<open>s.split(sep)\<close> for a one-character separator: the pieces between the separators, so
  that the result is never empty and \<open>''''.split(sep)\<close> is \<open>['''']\<close>.
\<close>

fun split_on :: "char \<Rightarrow> string \<Rightarrow> string list" where
  "split_on sep [] = [[]]"
| "split_on sep (x # xs) =
     (if x = sep then [] # split_on sep xs
      else (case split_on sep xs of
              [] \<Rightarrow> [[x]]
            | l # ls \<Rightarrow> (x # l) # ls))"

text \<open>\<open>sep.join(parts)\<close> for a one-character separator.\<close>

fun join_with :: "char \<Rightarrow> string list \<Rightarrow> string" where
  "join_with sep [] = []"
| "join_with sep [l] = l"
| "join_with sep (l # m # ls) = l @ sep # join_with sep (m # ls)"

section \<open>The regular expressions of the scanner\<close>

text \<open>
  The scanner uses Python's backtracking \<open>re\<close> engine on nine patterns. They are built
  from literals, one-character classes, greedy \<open>*\<close> and \<open>+\<close> over a class, greedy \<open>?\<close>,
  concatenation, numbered groups, \<open>^\<close> and \<open>$\<close>. The engine below explores the
  alternatives in the order of Python's engine: \<open>run\<close> returns every way to match, the
  preferred one first, so that the head of the list is the match Python reports.
  A matcher state is the position in the subject, the text still to be read and the
  groups captured so far.
\<close>

datatype re =
    Eps
  | Lit string
  | Cls "char \<Rightarrow> bool"
  | Star "char \<Rightarrow> bool"
  | Plus "char \<Rightarrow> bool"
  | Opt re
  | Seq re re
  | Grp nat re
  | Bol
  | Eol

type_synonym caps = "nat \<Rightarrow> string option"
type_synonym mstate = "nat \<times> string \<times> caps"

text \<open>Greedy repetition of a class: the longest run first, then every shorter one.\<close>

fun greedy :: "(char \<Rightarrow> bool) \<Rightarrow> mstate \<Rightarrow> mstate list" where
  "greedy f (p, [], c) = [(p, [], c)]"
| "greedy f (p, x # xs, c) =
     (if f x then greedy f (Suc p, xs, c) else []) @ [(p, x # xs, c)]"

text \<open>
  \<open>$\<close> (without MULTILINE) holds at the end of the subject and just before a newline that
  ends it; \<open>^\<close> holds at position 0 only.
\<close>

fun run :: "re \<Rightarrow> mstate \<Rightarrow> mstate list" where
  "run Eps st = [st]"
| "run (Lit w) (p, s, c) =
     (if prefix w s then [(p + length w, drop (length w) s, c)] else [])"
| "run (Cls f) (p, s, c) =
     (case s of [] \<Rightarrow> [] | x # xs \<Rightarrow> if f x then [(Suc p, xs, c)] else [])"
| "run (Star f) st = greedy f st"
| "run (Plus f) (p, s, c) =
     (case s of [] \<Rightarrow> [] | x # xs \<Rightarrow> if f x then greedy f (Suc p, xs, c) else [])"
| "run (Opt r) st = run r st @ [st]"
| "run (Seq a b) st = concat (map (run b) (run a st))"
| "run (Grp i r) (p, s, c) =
     map (\<lambda>(p', s', c'). (p', s', c'(i \<mapsto> take (p' - p) s))) (run r (p, s, c))"
| "run Bol (p, s, c) = (if p = 0 then [(p, s, c)] else [])"
| "run Eol (p, s, c) = (if s = [] \<or> s = [CHR 0x0A] then [(p, s, c)] else [])"

definition seq :: "re list \<Rightarrow> re" where
  "seq rs = foldr Seq rs Eps"

text \<open>
  A match object: where the match ends and what the groups hold. \<open>match_at\<close> tries the
  pattern at one position (the text from there on is \<open>s\<close>); \<open>re_match\<close> is
  \<open>pattern.match(s)\<close>, \<open>group\<close> is \<open>match.group(i)\<close>.
\<close>

type_synonym rematch = "nat \<times> caps"

definition match_at :: "re \<Rightarrow> nat \<Rightarrow> string \<Rightarrow> rematch option" where
  "match_at r p s =
     (case run r (p, s, Map.empty) of [] \<Rightarrow> None | (e, _, c) # _ \<Rightarrow> Some (e, c))"

definition re_match :: "re \<Rightarrow> string \<Rightarrow> rematch option" where
  "re_match r s = match_at r 0 s"

definition group :: "rematch \<Rightarrow> nat \<Rightarrow> pyval" where
  "group m i = (case snd m i of None \<Rightarrow> PyNone | Some g \<Rightarrow> PyStr g)"

text \<open>\<open>pattern.search(s)\<close>: the match at the leftmost position that has one.\<close>

fun search_from :: "re \<Rightarrow> nat \<Rightarrow> string \<Rightarrow> rematch option" where
  "search_from r p [] = match_at r p []"
| "search_from r p (x # xs) =
     (case match_at r p (x # xs) of
        Some m \<Rightarrow> Some m
      | None \<Rightarrow> search_from r (Suc p) xs)"

definition re_search :: "re \<Rightarrow> string \<Rightarrow> rematch option" where
  "re_search r s = search_from r 0 s"

text \<open>
  \<open>pattern.finditer(s)\<close>: the matches from left to right, each search starting where the
  previous match ended. None of the patterns used with \<open>finditer\<close> or \<open>findall\<close> can match
  the empty string (each starts with a literal), so a match always moves the position
  forward; the \<open>max\<close> below only makes that visible to the termination proof.
\<close>

function finditer :: "re \<Rightarrow> nat \<Rightarrow> string \<Rightarrow> rematch list" where
  "finditer r p [] = (case match_at r p [] of None \<Rightarrow> [] | Some m \<Rightarrow> [m])"
| "finditer r p (x # xs) =
     (case match_at r p (x # xs) of
        None \<Rightarrow> finditer r (Suc p) xs
      | Some (e, c) \<Rightarrow>
          (e, c) # finditer r (max e (Suc p)) (drop (max e (Suc p) - Suc p) xs))"
  by pat_completeness auto
termination
  by (relation "measure (\<lambda>(r, p, s). length s)") auto

text \<open>
  \<open>pattern.findall(s)\<close> for a pattern with one group: the text of group 1 of every match
  (the empty string for a group that took no part).
\<close>

definition findall :: "re \<Rightarrow> string \<Rightarrow> string list" where
  "findall r s = map (\<lambda>m. case snd m 1 of None \<Rightarrow> [] | Some g \<Rightarrow> g) (finditer r 0 s)"

subsection \<open>The patterns\<close>

definition name_char :: "char \<Rightarrow> bool" where
  \<comment> \<open>\<open>[a-zA-Z0-9\-_]\<close>\<close>
  "name_char c \<longleftrightarrow>
     c \<in> set ''abcdefghijklmnopqrstuvwxyzABCDEFGHIJKLMNOPQRSTUVWXYZ0123456789-_''"

definition not_dquote :: "char \<Rightarrow> bool" where
  \<comment> \<open>\<open>[^"]\<close>\<close>
  "not_dquote c \<longleftrightarrow> c \<noteq> CHR 0x22"

definition op_char :: "char \<Rightarrow> bool" where
  \<comment> \<open>\<open>[>=<~!]\<close>\<close>
  "op_char c \<longleftrightarrow> c \<in> set ''>=<~!''"

definition any_char :: "char \<Rightarrow> bool" where
  \<comment> \<open>\<open>.\<close> (without DOTALL): anything but a newline\<close>
  "any_char c \<longleftrightarrow> c \<noteq> CHR 0x0A"

definition non_space :: "char \<Rightarrow> bool" where
  \<comment> \<open>\<open>[^\s]\<close>\<close>
  "non_space c \<longleftrightarrow> \<not> isspace c"

definition quote_char :: "char \<Rightarrow> bool" where
  \<comment> \<open>\<open>['\"]\<close>\<close>
  "quote_char c \<longleftrightarrow> c = CHR 0x27 \<or> c = CHR 0x22"

definition not_quote :: "char \<Rightarrow> bool" where
  \<comment> \<open>\<open>[^'\"]\<close>\<close>
  "not_quote c \<longleftrightarrow> \<not> quote_char c"

definition not_lt :: "char \<Rightarrow> bool" where
  \<comment> \<open>\<open>[^<]\<close>\<close>
  "not_lt c \<longleftrightarrow> c \<noteq> CHR ''<''"

text \<open>\<open>PACKAGE_JSON_PATTERN = "([^"]+)":\s*"([^"]+)"\<close>\<close>

definition PACKAGE_JSON_PATTERN :: re where
  \<open>PACKAGE_JSON_PATTERN = seq [Lit ''"'', Grp 1 (Plus not_dquote), Lit ''":'',
     Star isspace, Lit ''"'', Grp 2 (Plus not_dquote), Lit ''"'']\<close>

text \<open>\<open>REQUIREMENTS_PATTERN = ^([a-zA-Z0-9\-_]+)\s*([>=<~!]+.*)?$\<close>\<close>

definition REQUIREMENTS_PATTERN :: re where
  "REQUIREMENTS_PATTERN = seq [Bol, Grp 1 (Plus name_char), Star isspace,
     Opt (Grp 2 (seq [Plus op_char, Star any_char])), Eol]"

text \<open>\<open>GO_MOD_PATTERN = ^\s*([^\s]+)\s+v?([^\s]+)\<close>\<close>

definition GO_MOD_PATTERN :: re where
  "GO_MOD_PATTERN = seq [Bol, Star isspace, Grp 1 (Plus non_space), Plus isspace,
     Opt (Lit ''v''), Grp 2 (Plus non_space)]"

text \<open>\<open>GEMFILE_PATTERN = gem\s+['\"]([^'\"]+)['\"](?:,\s*['\"]([^'\"]+)['\"])?\<close>\<close>

definition GEMFILE_PATTERN :: re where
  "GEMFILE_PATTERN = seq [Lit ''gem'', Plus isspace, Cls quote_char, Grp 1 (Plus not_quote),
     Cls quote_char,
     Opt (seq [Lit '','', Star isspace, Cls quote_char, Grp 2 (Plus not_quote),
               Cls quote_char])]"

text \<open>\<open>CARGO_PATTERN = ^([a-zA-Z0-9\-_]+)\s*=\s*"([^"]+)"\<close>\<close>

definition CARGO_PATTERN :: re where
  \<open>CARGO_PATTERN = seq [Bol, Grp 1 (Plus name_char), Star isspace, Lit ''='',
     Star isspace, Lit ''"'', Grp 2 (Plus not_dquote), Lit ''"'']\<close>

text \<open>
  \<open>POM_VERSION_PATTERN = <version>([^<]+)</version>\<close>,
  \<open>POM_ARTIFACT_PATTERN = <artifactId>([^<]+)</artifactId>\<close>,
  \<open>POM_GROUP_PATTERN = <groupId>([^<]+)</groupId>\<close>
\<close>

definition POM_VERSION_PATTERN :: re where
  "POM_VERSION_PATTERN = seq [Lit ''<version>'', Grp 1 (Plus not_lt), Lit ''</version>'']"

definition POM_ARTIFACT_PATTERN :: re where
  "POM_ARTIFACT_PATTERN = seq [Lit ''<artifactId>'', Grp 1 (Plus not_lt), Lit ''</artifactId>'']"

definition POM_GROUP_PATTERN :: re where
  "POM_GROUP_PATTERN = seq [Lit ''<groupId>'', Grp 1 (Plus not_lt), Lit ''</groupId>'']"

text \<open>The pattern local to \<open>parse_gradle\<close>: \<open>implementation\s+['\"]([^'\"]+)['\"]\<close>\<close>

definition dep_pattern :: re where
  "dep_pattern = seq [Lit ''implementation'', Plus isspace, Cls quote_char,
     Grp 1 (Plus not_quote), Cls quote_char]"

section \<open>The parsers\<close>

text \<open>
  A parser takes the text of one file and returns (name, version) pairs. Each loop over
  the lines is a \<open>foldl\<close> of its body over \<open>content.split('\n')\<close>; the loop state is the
  section flag, where the parser has one, and the list \<open>deps\<close>.
\<close>

type_synonym dep = "pyval \<times> pyval"

definition lines_of :: "string \<Rightarrow> string list" where
  "lines_of content = split_on (CHR 0x0A) content"

subsection \<open>package.json and composer.json\<close>

text \<open>
  The test that opens a block:
  \<open>'"dependencies"' in line or '"devDependencies"' in line\<close>.
\<close>

definition opens_deps_block :: "string \<Rightarrow> bool" where
  \<open>opens_deps_block line \<longleftrightarrow>
     contains ''"dependencies"'' line \<or> contains ''"devDependencies"'' line\<close>

definition package_json_step :: "bool \<times> dep list \<Rightarrow> string \<Rightarrow> bool \<times> dep list" where
  "package_json_step st line =
     (case st of (in_deps, deps) \<Rightarrow>
        if opens_deps_block line then (True, deps)
        else if in_deps then
          (if contains ''}'' line then (False, deps)
           else (case re_search PACKAGE_JSON_PATTERN line of
                   Some m \<Rightarrow> (in_deps, deps @ [(group m 1, group m 2)])
                 | None \<Rightarrow> (in_deps, deps)))
        else (in_deps, deps))"

definition parse_package_json :: "string \<Rightarrow> dep list" where
  "parse_package_json content = snd (foldl package_json_step (False, []) (lines_of content))"

definition composer_step :: "bool \<times> dep list \<Rightarrow> string \<Rightarrow> bool \<times> dep list" where
  \<open>composer_step st line =
     (case st of (in_require, deps) \<Rightarrow>
        if contains ''"require"'' line then (True, deps)
        else if in_require then
          (if contains ''}'' line then (False, deps)
           else (case re_search PACKAGE_JSON_PATTERN line of
                   Some m \<Rightarrow> (in_require, deps @ [(group m 1, group m 2)])
                 | None \<Rightarrow> (in_require, deps)))
        else (in_require, deps))\<close>

definition parse_composer :: "string \<Rightarrow> dep list" where
  "parse_composer content = snd (foldl composer_step (False, []) (lines_of content))"

subsection \<open>The lock files\<close>

definition parse_package_lock :: "string \<Rightarrow> dep list" where
  "parse_package_lock content = []"

definition parse_pipfile_lock :: "string \<Rightarrow> dep list" where
  "parse_pipfile_lock content = []"

definition parse_go_sum :: "string \<Rightarrow> dep list" where
  "parse_go_sum content = []"

definition parse_gemfile_lock :: "string \<Rightarrow> dep list" where
  "parse_gemfile_lock content = []"

definition parse_cargo_lock :: "string \<Rightarrow> dep list" where
  "parse_cargo_lock content = []"

subsection \<open>requirements.txt\<close>

definition requirements_step :: "dep list \<Rightarrow> string \<Rightarrow> dep list" where
  "requirements_step deps line0 =
     (let line = strip line0
      in if line \<noteq> [] \<and> \<not> startswith line ''#'' then
           (case re_match REQUIREMENTS_PATTERN line of
              Some m \<Rightarrow> deps @ [(group m 1, py_or (group m 2) (PyStr ''*''))]
            | None \<Rightarrow> deps)
         else deps)"

definition parse_requirements :: "string \<Rightarrow> dep list" where
  "parse_requirements content = foldl requirements_step [] (lines_of content)"

subsection \<open>Pipfile\<close>

text \<open>\<open>line.split('=', 1)\<close> on a line that contains \<open>=\<close>: the text before the first \<open>=\<close>
  and the text after it.\<close>

definition split_first :: "char \<Rightarrow> string \<Rightarrow> string \<times> string" where
  "split_first sep s = (takeWhile (\<lambda>c. c \<noteq> sep) s, drop 1 (dropWhile (\<lambda>c. c \<noteq> sep) s))"

definition pipfile_step :: "bool \<times> dep list \<Rightarrow> string \<Rightarrow> bool \<times> dep list" where
  "pipfile_step st line =
     (case st of (in_packages, deps) \<Rightarrow>
        if startswith (strip line) ''[packages]'' then (True, deps)
        else
          let in_packages' = (if startswith (strip line) ''['' then False else in_packages)
          in if in_packages' \<and> CHR ''='' \<in> set line then
               (case split_first (CHR ''='') line of (l, r) \<Rightarrow>
                  let name = strip l;
                      version = strip_with quote_char (strip r)
                  in if name \<noteq> [] then (in_packages', deps @ [(PyStr name, PyStr version)])
                     else (in_packages', deps))
             else (in_packages', deps))"

definition parse_pipfile :: "string \<Rightarrow> dep list" where
  "parse_pipfile content = snd (foldl pipfile_step (False, []) (lines_of content))"

subsection \<open>go.mod\<close>

definition go_mod_step :: "dep list \<Rightarrow> string \<Rightarrow> dep list" where
  "go_mod_step deps line0 =
     (let line = strip line0
      in if line \<noteq> [] \<and> \<not> startswith line ''//'' then
           (case re_match GO_MOD_PATTERN line of
              Some m \<Rightarrow> deps @ [(group m 1, group m 2)]
            | None \<Rightarrow> deps)
         else deps)"

definition parse_go_mod :: "string \<Rightarrow> dep list" where
  "parse_go_mod content = foldl go_mod_step [] (lines_of content)"

subsection \<open>Gemfile\<close>

definition parse_gemfile :: "string \<Rightarrow> dep list" where
  "parse_gemfile content =
     map (\<lambda>m. (group m 1, py_or (group m 2) (PyStr ''*''))) (finditer GEMFILE_PATTERN 0 content)"

subsection \<open>Cargo.toml\<close>

text \<open>The pattern is matched against the line as it is, not against the stripped line.\<close>

definition cargo_step :: "bool \<times> dep list \<Rightarrow> string \<Rightarrow> bool \<times> dep list" where
  "cargo_step st line =
     (case st of (in_deps, deps) \<Rightarrow>
        if contains ''[dependencies]'' line then (True, deps)
        else
          let in_deps' = (if in_deps \<and> startswith (strip line) ''['' then False else in_deps)
          in if in_deps' then
               (case re_match CARGO_PATTERN line of
                  Some m \<Rightarrow> (in_deps', deps @ [(group m 1, group m 2)])
                | None \<Rightarrow> (in_deps', deps))
             else (in_deps', deps))"

definition parse_cargo :: "string \<Rightarrow> dep list" where
  "parse_cargo content = snd (foldl cargo_step (False, []) (lines_of content))"

subsection \<open>pom.xml\<close>

text \<open>
  The loop \<open>for i in range(min(len(artifacts), len(versions)))\<close> builds one pair per index;
  every index it reads is in range, the one into \<open>groups\<close> by the test in the loop.
\<close>

definition pom_pair :: "string list \<Rightarrow> string list \<Rightarrow> string list \<Rightarrow> nat \<Rightarrow> dep" where
  "pom_pair artifacts groups versions i =
     (let grp = (if i < length groups then groups ! i else ''unknown'');
          name = grp @ '':'' @ artifacts ! i
      in (PyStr name, PyStr (versions ! i)))"

definition parse_pom :: "string \<Rightarrow> dep list" where
  "parse_pom content =
     (let artifacts = findall POM_ARTIFACT_PATTERN content;
          groups = findall POM_GROUP_PATTERN content;
          versions = findall POM_VERSION_PATTERN content
      in map (pom_pair artifacts groups versions)
           [0 ..< min (length artifacts) (length versions)])"

subsection \<open>build.gradle\<close>

definition gradle_step :: "dep list \<Rightarrow> rematch \<Rightarrow> dep list" where
  "gradle_step deps m =
     (case group m 1 of
        PyNone \<Rightarrow> deps
      | PyStr g \<Rightarrow>
          (case split_on (CHR '':'') g of
             p0 # p1 # p2 # _ \<Rightarrow> deps @ [(PyStr (p0 @ '':'' @ p1), PyStr p2)]
           | _ \<Rightarrow> deps))"

definition parse_gradle :: "string \<Rightarrow> dep list" where
  "parse_gradle content = foldl gradle_step [] (finditer dep_pattern 0 content)"

section \<open>Files, directories and the scan\<close>

text \<open>
  A path is the list of its components; \<open>root_path\<close> (resolved by the constructor) and
  the paths of the files visited are absolute.
\<close>

type_synonym path = "string list"

text \<open>
  The exceptions the scanner distinguishes, each with its message. In Python
  \<open>UnicodeDecodeError\<close> is a subclass of \<open>ValueError\<close>, and \<open>IOError\<close> is \<open>OSError\<close>;
  \<open>OtherException\<close> stands for any other subclass of \<open>Exception\<close>.
\<close>

datatype exn =
    OSError string
  | UnicodeDecodeError string
  | ValueError string
  | OtherException string

text \<open>
  What \<open>open(file_path, 'r', encoding=...)\<close> followed by \<open>f.read()\<close> gives for a file: the
  decoded text or the exception raised, once for UTF-8 and once for Latin-1.
\<close>

datatype fsfile = File (read_utf8: "exn + string") (read_latin1: "exn + string")

text \<open>
  A directory as \<open>os.walk\<close> lists it: its non-directory entries and its subdirectories, each
  with its name, in the order of enumeration. Symbolic links are not part of the model.
\<close>

datatype dir = Dir (dir_files: "(string \<times> fsfile) list") (dir_subdirs: "(string \<times> dir) list")

definition PRUNE_DIRS :: "string set" where
  "PRUNE_DIRS = set [''.git'', ''.svn'', ''.hg'',
     ''node_modules'', ''vendor'', ''bower_components'',
     ''__pycache__'', ''.pytest_cache'', ''.tox'',
     ''venv'', ''env'', ''.env'', ''.venv'',
     ''target'', ''build'', ''dist'', ''.build'',
     ''.idea'', ''.vscode'', ''.vs'']"

text \<open>
  \<open>DEPENDENCY_FILES\<close>: file name to ecosystem and parser. A parser is entered as a function
  that returns its pairs or raises; the parsers of the program never raise.
\<close>

type_synonym parser = "string \<Rightarrow> exn + dep list"
type_synonym dep_table = "(string \<times> string \<times> parser) list"

definition DEPENDENCY_FILES :: dep_table where
  "DEPENDENCY_FILES =
    [(''package.json'', ''npm'', Inr \<circ> parse_package_json),
     (''package-lock.json'', ''npm'', Inr \<circ> parse_package_lock),
     (''requirements.txt'', ''pip'', Inr \<circ> parse_requirements),
     (''Pipfile'', ''pip'', Inr \<circ> parse_pipfile),
     (''Pipfile.lock'', ''pip'', Inr \<circ> parse_pipfile_lock),
     (''go.mod'', ''go'', Inr \<circ> parse_go_mod),
     (''go.sum'', ''go'', Inr \<circ> parse_go_sum),
     (''Gemfile'', ''gem'', Inr \<circ> parse_gemfile),
     (''Gemfile.lock'', ''gem'', Inr \<circ> parse_gemfile_lock),
     (''Cargo.toml'', ''cargo'', Inr \<circ> parse_cargo),
     (''Cargo.lock'', ''cargo'', Inr \<circ> parse_cargo_lock),
     (''pom.xml'', ''maven'', Inr \<circ> parse_pom),
     (''build.gradle'', ''gradle'', Inr \<circ> parse_gradle),
     (''composer.json'', ''composer'', Inr \<circ> parse_composer)]"

record dep_record =
  ecosystem :: string
  package :: pyval
  version :: pyval
  file' :: string

text \<open>
  The scanner: \<open>self.dependencies\<close>, the lines printed to standard error, and the paths
  handed to \<open>open\<close>, in order (a trace kept to state which files are read).
\<close>

record scanner =
  dependencies :: "dep_record list"
  stderr :: "string list"
  opened :: "path list"

text \<open>\<open>p.relative_to(base)\<close> raises \<open>ValueError\<close> unless \<open>base\<close> is a prefix of \<open>p\<close>.\<close>

definition relative_to :: "path \<Rightarrow> path \<Rightarrow> exn + path" where
  "relative_to p base =
     (if prefix base p then Inr (drop (length base) p)
      else Inl (ValueError ''path is not in the subpath of the root''))"

text \<open>\<open>str\<close> of a relative and of an absolute path.\<close>

definition rel_str :: "path \<Rightarrow> string" where
  "rel_str parts = (if parts = [] then ''.'' else join_with (CHR ''/'') parts)"

definition abs_str :: "path \<Rightarrow> string" where
  "abs_str parts = CHR ''/'' # join_with (CHR ''/'') parts"

text \<open>
  The loop \<open>for name, version in deps: self.dependencies.append({...})\<close>. The record is
  built, with its call of \<open>relative_to\<close>, before it is appended.
\<close>

fun append_deps ::
  "string \<Rightarrow> path \<Rightarrow> path \<Rightarrow> dep list \<Rightarrow> dep_record list \<Rightarrow> dep_record list \<times> exn option"
where
  "append_deps eco root_path file_path [] acc = (acc, None)"
| "append_deps eco root_path file_path ((name, ver) # ds) acc =
     (case relative_to file_path root_path of
        Inl e \<Rightarrow> (acc, Some e)
      | Inr rel \<Rightarrow>
          append_deps eco root_path file_path ds
            (acc @ [\<lparr>ecosystem = eco, package = name, version = ver, file' = rel_str rel\<rparr>]))"

text \<open>
  The body of one \<open>with open(...) as f\<close> block of \<open>_parse_dependency_file\<close>: open and read,
  parse, append. The result is the new scanner and the exception that left the block, if
  any.
\<close>

definition read_and_parse ::
  "parser \<Rightarrow> string \<Rightarrow> path \<Rightarrow> path \<Rightarrow> exn + string \<Rightarrow> scanner \<Rightarrow> scanner \<times> exn option"
where
  "read_and_parse parse eco root_path file_path rd sc =
     (let sc1 = sc\<lparr>opened := opened sc @ [file_path]\<rparr>
      in case rd of
           Inl e \<Rightarrow> (sc1, Some e)
         | Inr content \<Rightarrow>
             (case parse content of
                Inl e \<Rightarrow> (sc1, Some e)
              | Inr deps \<Rightarrow>
                  (case append_deps eco root_path file_path deps (dependencies sc1) of
                     (acc, r) \<Rightarrow> (sc1\<lparr>dependencies := acc\<rparr>, r))))"

text \<open>
  \<open>_parse_dependency_file\<close>: the UTF-8 attempt, and the Latin-1 attempt when the first one
  ends in \<open>UnicodeDecodeError\<close>. A name missing from the table is the \<open>KeyError\<close> of
  \<open>DEPENDENCY_FILES[filename]\<close>; \<open>scan\<close> never asks for one.
\<close>

definition parse_dependency_file ::
  "dep_table \<Rightarrow> path \<Rightarrow> path \<Rightarrow> string \<Rightarrow> fsfile \<Rightarrow> scanner \<Rightarrow> scanner \<times> exn option"
where
  "parse_dependency_file tbl root_path file_path filename f sc =
     (case map_of tbl filename of
        None \<Rightarrow> (sc, Some (OtherException ''KeyError''))
      | Some (eco, parse) \<Rightarrow>
          (case read_and_parse parse eco root_path file_path (read_utf8 f) sc of
             (sc1, Some (UnicodeDecodeError msg)) \<Rightarrow>
               read_and_parse parse eco root_path file_path (read_latin1 f) sc1
           | res \<Rightarrow> res))"

definition warn :: "string \<Rightarrow> scanner \<Rightarrow> scanner" where
  "warn msg sc = sc\<lparr>stderr := stderr sc @ [msg]\<rparr>"

text \<open>
  The body of \<open>for file in files\<close> in \<open>scan\<close>: the three \<open>except\<close> clauses in their order.
\<close>

definition scan_file :: "dep_table \<Rightarrow> path \<Rightarrow> path \<Rightarrow> scanner \<Rightarrow> string \<times> fsfile \<Rightarrow> scanner" where
  "scan_file tbl root_path cur sc entry =
     (case entry of (filename, f) \<Rightarrow>
        if filename \<in> fst ` set tbl then
          (let file_path = cur @ [filename]
           in case parse_dependency_file tbl root_path file_path filename f sc of
                (sc1, None) \<Rightarrow> sc1
              | (sc1, Some (OSError msg)) \<Rightarrow>
                  warn (''Warning: Cannot read '' @ abs_str file_path @ '': '' @ msg) sc1
              | (sc1, Some (ValueError msg)) \<Rightarrow>
                  warn (''Warning: Invalid format in '' @ abs_str file_path @ '': '' @ msg) sc1
              | (sc1, Some (UnicodeDecodeError msg)) \<Rightarrow>
                  warn (''Warning: Invalid format in '' @ abs_str file_path @ '': '' @ msg) sc1
              | (sc1, Some (OtherException msg)) \<Rightarrow>
                  warn (''Error: Unexpected error parsing '' @ abs_str file_path @ '': '' @ msg)
                    sc1)
        else sc)"

text \<open>
  \<open>os.walk(self.root_path, topdown=True)\<close> with the body of the loop of \<open>scan\<close>: at the
  directory \<open>cur\<close> the pruned names are removed from \<open>dirs\<close>, the files of \<open>cur\<close> are
  handled, and the walk goes down into the directories left in \<open>dirs\<close>, in order.
\<close>

fun scan_dir :: "dep_table \<Rightarrow> path \<Rightarrow> path \<Rightarrow> dir \<Rightarrow> scanner \<Rightarrow> scanner" where
  "scan_dir tbl root_path cur (Dir files subs) sc =
     (let dirs = filter (\<lambda>(d, sub). d \<notin> PRUNE_DIRS) subs;
          sc1 = foldl (scan_file tbl root_path cur) sc files
      in foldl (\<lambda>s (d, sub). scan_dir tbl root_path (cur @ [d]) sub s) sc1 dirs)"

definition scan_with :: "dep_table \<Rightarrow> path \<Rightarrow> dir \<Rightarrow> scanner" where
  "scan_with tbl root_path tree =
     scan_dir tbl root_path root_path tree \<lparr>dependencies = [], stderr = [], opened = []\<rparr>"

definition scan :: "path \<Rightarrow> dir \<Rightarrow> scanner" where
  "scan root_path tree = scan_with DEPENDENCY_FILES root_path tree"

section \<open>The report\<close>

subsection \<open>Writing CSV\<close>

text \<open>
  \<open>csv.DictWriter(f, fieldnames)\<close> writes with the default dialect: comma, double quote,
  \<open>QUOTE_MINIMAL\<close>, doubled quotes, lines ended by CR LF. A field is quoted when it holds
  the delimiter, the quote character or a character of the line terminator; quotes inside
  are doubled. \<open>None\<close> is written as the empty field. A row that consists of one empty
  field is written as \<open>""\<close>.
\<close>

definition csv_special :: "char \<Rightarrow> bool" where
  "csv_special c \<longleftrightarrow> c = CHR '','' \<or> c = CHR 0x22 \<or> c = CHR 0x0D \<or> c = CHR 0x0A"

definition csv_escape :: "string \<Rightarrow> string" where
  "csv_escape s = concat (map (\<lambda>c. if c = CHR 0x22 then [c, c] else [c]) s)"

definition csv_field :: "string \<Rightarrow> string" where
  "csv_field s =
     (if list_ex csv_special s then CHR 0x22 # csv_escape s @ [CHR 0x22] else s)"

fun csv_text :: "pyval \<Rightarrow> string" where
  "csv_text PyNone = []"
| "csv_text (PyStr s) = s"

definition writerow :: "string list \<Rightarrow> string" where
  "writerow row =
     (if row = [[]] then [CHR 0x22, CHR 0x22, CHR 0x0D, CHR 0x0A]
      else join_with (CHR '','') (map csv_field row) @ [CHR 0x0D, CHR 0x0A])"

definition fieldnames :: "string list" where
  "fieldnames = [''ecosystem'', ''package'', ''version'', ''file'']"

text \<open>The values of one record in the order of \<open>fieldnames\<close>.\<close>

definition dict_to_list :: "dep_record \<Rightarrow> pyval list" where
  "dict_to_list r = [PyStr (ecosystem r), package r, version r, PyStr (file' r)]"

text \<open>What \<open>writeheader()\<close> and \<open>writerows(dependencies)\<close> put into the file.\<close>

definition csv_output :: "dep_record list \<Rightarrow> string" where
  "csv_output deps =
     writerow fieldnames @ concat (map (\<lambda>r. writerow (map csv_text (dict_to_list r))) deps)"

text \<open>\<open>str(n)\<close> for the count in the final message.\<close>

function show_nat :: "nat \<Rightarrow> string" where
  "show_nat n =
     (if n < 10 then [char_of (48 + n)]
      else show_nat (n div 10) @ [char_of (48 + n mod 10)])"
  by pat_completeness auto
termination
  by (relation "measure (\<lambda>n. n)") auto

text \<open>
  What the process leaves behind: the lines on standard output and standard error, and
  the files written (name and content).
\<close>

record world =
  out_stdout :: "string list"
  out_stderr :: "string list"
  files_written :: "(string \<times> string) list"

text \<open>
  \<open>write_csv\<close>. \<open>open_w\<close> tells for a file name the exception that
  \<open>open(output_file, 'w', ...)\<close> raises, if any; \<open>write_csv\<close> does not catch it.
\<close>

definition write_csv ::
  "(string \<Rightarrow> exn option) \<Rightarrow> dep_record list \<Rightarrow> string \<Rightarrow> world \<Rightarrow> world \<times> exn option"
where
  "write_csv open_w deps output_file w =
     (if deps = [] then (w\<lparr>out_stderr := out_stderr w @ [''No dependencies found.'']\<rparr>, None)
      else
        (case open_w output_file of
           Some e \<Rightarrow> (w, Some e)
         | None \<Rightarrow>
             (w\<lparr>files_written := files_written w @ [(output_file, csv_output deps)],
                out_stdout := out_stdout w @
                  [''Written '' @ show_nat (length deps) @ '' dependencies to '' @ output_file]\<rparr>,
              None)))"

subsection \<open>The entry point\<close>




subsection \<open>Reading CSV\<close>

text \<open>
  The reader against which the written file is checked: the standard quoting rules in the
  form of the state machine of \<open>csv.reader\<close> with the default dialect, run over the
  characters of the text. A record ends at CR, LF or CR LF outside quotes; inside quotes
  every character but the quote belongs to the field and a doubled quote is one quote.
  The state is the machine state, the fields of the record being read, the field being
  read and the records finished.
\<close>

datatype rd_state = StartRecord | StartField | InField | InQuotedField | QuoteInQuotedField | EatLF

type_synonym rd = "rd_state \<times> string list \<times> string \<times> string list list"

definition start_field :: "string list \<Rightarrow> string list list \<Rightarrow> char \<Rightarrow> rd" where
  "start_field row recs c =
     (if c = CHR 0x0D then (EatLF, [], [], recs @ [row @ [[]]])
      else if c = CHR 0x0A then (StartRecord, [], [], recs @ [row @ [[]]])
      else if c = CHR 0x22 then (InQuotedField, row, [], recs)
      else if c = CHR '','' then (StartField, row @ [[]], [], recs)
      else (InField, row, [c], recs))"

definition start_record :: "string list list \<Rightarrow> char \<Rightarrow> rd" where
  "start_record recs c =
     (if c = CHR 0x0D then (EatLF, [], [], recs @ [[]])
      else if c = CHR 0x0A then (StartRecord, [], [], recs @ [[]])
      else start_field [] recs c)"

fun rd_step :: "rd \<Rightarrow> char \<Rightarrow> rd" where
  "rd_step (StartRecord, row, fld, recs) c = start_record recs c"
| "rd_step (EatLF, row, fld, recs) c =
     (if c = CHR 0x0A then (StartRecord, [], [], recs) else start_record recs c)"
| "rd_step (StartField, row, fld, recs) c = start_field row recs c"
| "rd_step (InField, row, fld, recs) c =
     (if c = CHR 0x0D then (EatLF, [], [], recs @ [row @ [fld]])
      else if c = CHR 0x0A then (StartRecord, [], [], recs @ [row @ [fld]])
      else if c = CHR '','' then (StartField, row @ [fld], [], recs)
      else (InField, row, fld @ [c], recs))"
| "rd_step (InQuotedField, row, fld, recs) c =
     (if c = CHR 0x22 then (QuoteInQuotedField, row, fld, recs)
      else (InQuotedField, row, fld @ [c], recs))"
| "rd_step (QuoteInQuotedField, row, fld, recs) c =
     (if c = CHR 0x22 then (InQuotedField, row, fld @ [c], recs)
      else if c = CHR '','' then (StartField, row @ [fld], [], recs)
      else if c = CHR 0x0D then (EatLF, [], [], recs @ [row @ [fld]])
      else if c = CHR 0x0A then (StartRecord, [], [], recs @ [row @ [fld]])
      else (InField, row, fld @ [c], recs))"

definition csv_read :: "string \<Rightarrow> string list list" where
  "csv_read txt =
     (case foldl rd_step (StartRecord, [], [], []) txt of
        (st, row, fld, recs) \<Rightarrow>
          if st = StartRecord \<or> st = EatLF then recs else recs @ [row @ [fld]])"

section \<open>Notions used to state the properties\<close>

subsection \<open>What a pattern guarantees about its groups\<close>

text \<open>
  Three syntactic checks on a pattern: \<open>consumes r\<close> when every match of \<open>r\<close> reads at
  least one character, \<open>touches i r\<close> when group \<open>i\<close> occurs in \<open>r\<close>, and \<open>grp_set i r\<close>
  when every match of \<open>r\<close> leaves in group \<open>i\<close> a text that is not empty.
\<close>

fun consumes :: "re \<Rightarrow> bool" where
  "consumes (Lit w) \<longleftrightarrow> w \<noteq> []"
| "consumes (Cls f) \<longleftrightarrow> True"
| "consumes (Plus f) \<longleftrightarrow> True"
| "consumes (Seq a b) \<longleftrightarrow> consumes a \<or> consumes b"
| "consumes (Grp i r) \<longleftrightarrow> consumes r"
| "consumes _ \<longleftrightarrow> False"

fun touches :: "nat \<Rightarrow> re \<Rightarrow> bool" where
  "touches i (Grp j r) \<longleftrightarrow> i = j \<or> touches i r"
| "touches i (Seq a b) \<longleftrightarrow> touches i a \<or> touches i b"
| "touches i (Opt r) \<longleftrightarrow> touches i r"
| "touches i _ \<longleftrightarrow> False"

fun grp_set :: "nat \<Rightarrow> re \<Rightarrow> bool" where
  "grp_set i (Grp j r) \<longleftrightarrow> (if i = j then consumes r else grp_set i r)"
| "grp_set i (Seq a b) \<longleftrightarrow> (grp_set i a \<and> \<not> touches i b) \<or> grp_set i b"
| "grp_set i _ \<longleftrightarrow> False"

text \<open>A pair whose name is a string that is not empty.\<close>

definition named :: "dep \<Rightarrow> bool" where
  "named d \<longleftrightarrow> (\<exists>s. fst d = PyStr s \<and> s \<noteq> [])"

subsection \<open>The values of an XML tag\<close>

text \<open>
  The values of the elements \<open><tag>...</tag>\<close> of a text in document order, read off
  directly: at each position, an element is the opening tag, a text that is not empty
  and holds no \<open><\<close>, and the closing tag; after an element the reading goes on behind its
  closing tag, elsewhere one character further.
\<close>

function tag_values :: "string \<Rightarrow> string \<Rightarrow> string list" where
  "tag_values tag [] = []"
| "tag_values tag (x # xs) =
     (let open_tag = ''<'' @ tag @ ''>'';
          close_tag = ''</'' @ tag @ ''>'';
          body = drop (length open_tag) (x # xs);
          v = takeWhile (\<lambda>c. c \<noteq> CHR ''<'') body;
          rest = dropWhile (\<lambda>c. c \<noteq> CHR ''<'') body
      in if prefix open_tag (x # xs) \<and> v \<noteq> [] \<and> prefix close_tag rest
         then v # tag_values tag (drop (length close_tag) rest)
         else tag_values tag xs)"
  by pat_completeness auto
termination
proof (relation "measure (\<lambda>(tag, s). length s)")
  fix tag :: string and x :: char and xs open_tag close_tag body v rest
  assume "open_tag = ''<'' @ tag @ ''>''" and "body = drop (length open_tag) (x # xs)"
    and "rest = dropWhile (\<lambda>c. c \<noteq> CHR ''<'') body"
  then have "length rest \<le> length xs"
    using length_dropWhile_le [of "\<lambda>c. c \<noteq> CHR ''<''" body] by simp
  then show "((tag, drop (length close_tag) rest), tag, x # xs) \<in> measure (\<lambda>(tag, s). length s)"
    by simp
qed simp_all

subsection \<open>Well-formed directory trees\<close>

text \<open>
  A name in a directory is not empty and holds no slash. \<open>valid_tree\<close> asks this of the
  name of every directory below the root of the tree.
\<close>

definition valid_name :: "string \<Rightarrow> bool" where
  "valid_name n \<longleftrightarrow> n \<noteq> [] \<and> CHR ''/'' \<notin> set n"

fun valid_tree :: "dir \<Rightarrow> bool" where
  "valid_tree (Dir files subs) \<longleftrightarrow>
     (\<forall>(d, sub) \<in> set subs. valid_name d \<and> valid_tree sub)"

subsection \<open>Auxiliary notions for the scan and the reader\<close>

text \<open>The records that the loop of \<open>_parse_dependency_file\<close> builds from the pairs of a
  parser, for a file below the root.\<close>

definition records_of :: "string \<Rightarrow> path \<Rightarrow> path \<Rightarrow> dep list \<Rightarrow> dep_record list" where
  "records_of eco root_path file_path ds =
     (case relative_to file_path root_path of
        Inl e \<Rightarrow> []
      | Inr rel \<Rightarrow>
          map (\<lambda>(name, ver).
                 \<lparr>ecosystem = eco, package = name, version = ver, file' = rel_str rel\<rparr>) ds)"

text \<open>The state in which the reader is after the text of a field.\<close>

definition after_field :: "rd_state \<Rightarrow> string list \<Rightarrow> string \<Rightarrow> string list list \<Rightarrow> rd" where
  "after_field st row f recs =
     (if list_ex csv_special f then (QuoteInQuotedField, row, f, recs)
      else if f = [] then (st, row, [], recs)
      else (InField, row, f, recs))"

section \<open>Facts about the text primitives\<close>

lemma split_on_no_sep: "sep \<notin> set l \<Longrightarrow> split_on sep l = [l]"
  by (induction l) auto

lemma split_on_append:
  "sep \<notin> set l \<Longrightarrow> split_on sep (l @ sep # rest) = l # split_on sep rest"
  by (induction l) auto

lemma split_on_join:
  "ls \<noteq> [] \<Longrightarrow> \<forall>l\<in>set ls. sep \<notin> set l \<Longrightarrow> split_on sep (join_with sep ls) = ls"
  by (induction sep ls rule: join_with.induct) (simp_all add: split_on_no_sep split_on_append)

section \<open>Cargo.toml\<close>

lemma cargo_outside_section:
  "\<forall>l\<in>set ls. \<not> contains ''[dependencies]'' l \<Longrightarrow>
   foldl cargo_step (False, deps) ls = (False, deps)"
  by (induction ls) (simp_all add: cargo_step_def)

lemma cargo_section_example:
  \<open>foldl cargo_step (False, [])
     [''[dependencies]'', ''serde = "1.0"'', ''tokio = "1.17"''] =
   (True, [(PyStr ''serde'', PyStr ''1.0''), (PyStr ''tokio'', PyStr ''1.17'')])\<close>
  by (simp add: cargo_step_def re_match_def match_at_def CARGO_PATTERN_def seq_def
    startswith_def strip_def strip_with_def isspace_def name_char_def not_dquote_def group_def)

text \<open>
  When every line of the \<open>[dependencies]\<close> section starts in the first column, the parser
  returns the pairs (serde, 1.0) and (tokio, 1.17), whatever the lines before
  \<open>[dependencies]\<close> are, as long as none of them holds the text \<open>[dependencies]\<close> itself.
\<close>

lemma parse_cargo_section_in_first_column:
  assumes "\<forall>l\<in>set pkg. CHR 0x0A \<notin> set l \<and> \<not> contains ''[dependencies]'' l"
  shows \<open>parse_cargo (join_with (CHR 0x0A)
            (pkg @ [''[dependencies]'', ''serde = "1.0"'', ''tokio = "1.17"''])) =
         [(PyStr ''serde'', PyStr ''1.0''), (PyStr ''tokio'', PyStr ''1.17'')]\<close>
proof -
  let ?sect = \<open>[''[dependencies]'', ''serde = "1.0"'', ''tokio = "1.17"'']\<close>
  have "\<forall>l\<in>set (pkg @ ?sect). CHR 0x0A \<notin> set l"
    using assms by simp
  then have "lines_of (join_with (CHR 0x0A) (pkg @ ?sect)) = pkg @ ?sect"
    unfolding lines_of_def by (intro split_on_join) simp_all
  moreover have "foldl cargo_step (False, []) pkg = (False, [])"
    using assms by (intro cargo_outside_section) simp
  ultimately show ?thesis
    unfolding parse_cargo_def by (simp only: foldl_append cargo_section_example snd_conv)
qed

text \<open>The instance with a \<open>[package]\<close> section in front.\<close>

lemma parse_cargo_section_in_first_column_example:
  \<open>parse_cargo ''[package]\<newline>name = "myapp"\<newline>version = "0.1.0"\<newline>\<newline>[dependencies]\<newline>serde = "1.0"\<newline>tokio = "1.17"'' =
     [(PyStr ''serde'', PyStr ''1.0''), (PyStr ''tokio'', PyStr ''1.17'')]\<close>
  using parse_cargo_section_in_first_column
    [of \<open>[''[package]'', ''name = "myapp"'', ''version = "0.1.0"'', '''']\<close>]
  by simp

lemma space_not_name_char: "isspace c \<Longrightarrow> \<not> name_char c"
  by (auto simp: isspace_def name_char_def)

lemma cargo_match_needs_name_at_start:
  "re_match CARGO_PATTERN line = Some m \<Longrightarrow> \<exists>c rest. line = c # rest \<and> name_char c"
  by (cases line)
     (auto simp: re_match_def match_at_def CARGO_PATTERN_def seq_def split: if_splits)

text \<open>
  C10: in the loop of \<open>parse_cargo\<close>, whatever the section flag is, a line that begins
  with a whitespace character adds no pair, and a line that does add a pair begins with a
  name character in its first column: \<open>CARGO_PATTERN\<close> is anchored at the start and is
  matched against the line as it is, not against the stripped line.
\<close>

theorem cargo_pair_only_for_name_in_first_column:
  "(isspace c \<longrightarrow> snd (cargo_step (in_deps, deps) (c # rest)) = deps) \<and>
   (snd (cargo_step (in_deps, deps) line) \<noteq> deps \<longrightarrow>
      (\<exists>c' rest'. line = c' # rest' \<and> name_char c' \<and> \<not> isspace c'))"
proof (intro conjI impI)
  assume "isspace c"
  then have "re_match CARGO_PATTERN (c # rest) = None"
    using cargo_match_needs_name_at_start [of "c # rest"] space_not_name_char [of c]
    by (cases "re_match CARGO_PATTERN (c # rest)") auto
  then show "snd (cargo_step (in_deps, deps) (c # rest)) = deps"
    by (simp add: cargo_step_def Let_def)
next
  assume "snd (cargo_step (in_deps, deps) line) \<noteq> deps"
  then obtain m where "re_match CARGO_PATTERN line = Some m"
    by (auto simp: cargo_step_def Let_def split: if_splits option.splits)
  then show "\<exists>c' rest'. line = c' # rest' \<and> name_char c' \<and> \<not> isspace c'"
    using cargo_match_needs_name_at_start space_not_name_char by blast
qed

text \<open>Inside the section, the indented line gives nothing and the same line unindented
  gives its pair.\<close>

theorem cargo_pair_only_for_name_in_first_column_witness:
  \<open>isspace (CHR '' '') \<and>
   snd (cargo_step (True, []) ''  serde = "1.0"'') = [] \<and>
   snd (cargo_step (True, []) ''serde = "1.0"'') \<noteq> [] \<and>
   name_char (CHR ''s'')\<close>
  using cargo_pair_only_for_name_in_first_column
    [of \<open>CHR '' ''\<close> True \<open>[]\<close> \<open>'' serde = "1.0"''\<close> \<open>''serde = "1.0"''\<close>]
  by (simp add: isspace_def cargo_step_def re_match_def match_at_def CARGO_PATTERN_def seq_def
    startswith_def strip_def strip_with_def name_char_def not_dquote_def group_def)

text \<open>
  C2: \<open>parse_cargo\<close> on a text made of a \<open>[package]\<close> section followed by a
  \<open>[dependencies]\<close> section with the lines \<open>serde = "1.0"\<close> and \<open>tokio = "1.17"\<close> should
  return exactly the pairs (serde, 1.0) and (tokio, 1.17). The text below is the one that
  \<open>test_parse_cargo_toml\<close> of the repository's tests passes to the parser, every line
  indented by eight spaces, and the test expects these two pairs. The code returns the
  empty list: \<open>CARGO_PATTERN\<close> is anchored at the start and \<open>match\<close> is given the line as it
  is, while \<open>parse_requirements\<close> and \<open>parse_go_mod\<close> strip the line before they match
  it, and \<open>parse_cargo\<close> itself strips it for its test of a new section.
\<close>

theorem parse_cargo_indented_test_input:
  \<open>parse_cargo ''\<newline>        [package]\<newline>        name = "myapp"\<newline>        version = "0.1.0"\<newline>        \<newline>        [dependencies]\<newline>        serde = "1.0"\<newline>        tokio = "1.17"\<newline>        '' = []\<close>
  by (simp add: parse_cargo_def lines_of_def cargo_step_def re_match_def match_at_def
    CARGO_PATTERN_def seq_def startswith_def strip_def strip_with_def isspace_def
    name_char_def not_dquote_def group_def)

section \<open>requirements.txt\<close>

text \<open>
  C3: \<open>parse_requirements\<close> on the five lines \<open>requests>=2.25.1\<close>, \<open>flask==1.1.2\<close>,
  \<open>numpy\<close>, \<open># comment\<close>, \<open>django>=3.0\<close> returns exactly four pairs, in this order:
  (requests, >=2.25.1), (flask, ==1.1.2), (numpy, *), (django, >=3.0). The comment line
  gives no pair and the bare name \<open>numpy\<close> gets the version \<open>*\<close>.
\<close>

theorem parse_requirements_example:
  \<open>parse_requirements
     ''requests>=2.25.1\<newline>flask==1.1.2\<newline>numpy\<newline># comment\<newline>django>=3.0'' =
   [(PyStr ''requests'', PyStr ''>=2.25.1''), (PyStr ''flask'', PyStr ''==1.1.2''),
    (PyStr ''numpy'', PyStr ''*''), (PyStr ''django'', PyStr ''>=3.0'')]\<close>
  by (simp add: parse_requirements_def lines_of_def requirements_step_def re_match_def
    match_at_def REQUIREMENTS_PATTERN_def seq_def startswith_def strip_def strip_with_def
    isspace_def name_char_def op_char_def any_char_def group_def)

section \<open>pom.xml\<close>

text \<open>
  After a greedy run over a class, a continuation that fails whenever the next character
  is in the class can only succeed at the end of the longest run.
\<close>

lemma greedy_commit:
  assumes "\<And>p' x' s' c'. f x' \<Longrightarrow> g (p', x' # s', c') = []"
  shows "concat (map g (greedy f (p, s, c))) = g (p + length (takeWhile f s), dropWhile f s, c)"
  using assms by (induction s arbitrary: p) simp_all

lemma tag_pattern_match:
  assumes cl: "cl = CHR ''<'' # cl'"
  shows "match_at (seq [Lit opn, Grp 1 (Plus not_lt), Lit cl]) p s =
     (let body = drop (length opn) s;
          v = takeWhile not_lt body;
          rest = dropWhile not_lt body
      in if prefix opn s \<and> v \<noteq> [] \<and> prefix cl rest
         then Some (p + length opn + length v + length cl, [1 \<mapsto> v])
         else None)"
proof (cases "prefix opn s")
  case False
  then show ?thesis by (simp add: match_at_def seq_def)
next
  case True
  define body where "body = drop (length opn) s"
  define q where "q = p + length opn"
  let ?after = "\<lambda>st. run (Seq (Lit cl) Eps)
        (case st of (p', s', c') \<Rightarrow> (p', s', c'(1 \<mapsto> take (p' - q) body)))"
  have commit: "concat (map ?after (greedy not_lt (p0, s0, c0))) =
      ?after (p0 + length (takeWhile not_lt s0), dropWhile not_lt s0, c0)" for p0 s0 c0
    by (rule greedy_commit) (simp add: cl not_lt_def)
  have start: "run (seq [Lit opn, Grp 1 (Plus not_lt), Lit cl]) (p, s, Map.empty) =
      concat (map ?after (run (Plus not_lt) (q, body, Map.empty)))"
    using True by (simp add: seq_def body_def q_def map_map comp_def case_prod_unfold)
  show ?thesis
  proof (cases body)
    case Nil
    with start show ?thesis
      by (simp add: match_at_def Let_def body_def [symmetric])
  next
    case (Cons b bs)
    show ?thesis
    proof (cases "not_lt b")
      case False
      with Cons start show ?thesis
        by (simp add: match_at_def Let_def body_def [symmetric])
    next
      case b: True
      have v: "takeWhile not_lt body = b # takeWhile not_lt bs"
        and rest: "dropWhile not_lt body = dropWhile not_lt bs"
        using Cons b by simp_all
      have "run (Plus not_lt) (q, body, Map.empty) = greedy not_lt (Suc q, bs, Map.empty)"
        using Cons b by simp
      then have "run (seq [Lit opn, Grp 1 (Plus not_lt), Lit cl]) (p, s, Map.empty) =
          concat (map ?after (greedy not_lt (Suc q, bs, Map.empty)))"
        by (simp only: start)
      also have "\<dots> = ?after (Suc q + length (takeWhile not_lt bs), dropWhile not_lt bs, Map.empty)"
        by (rule commit)
      finally have "run (seq [Lit opn, Grp 1 (Plus not_lt), Lit cl]) (p, s, Map.empty) =
          run (Seq (Lit cl) Eps)
            (Suc q + length (takeWhile not_lt bs), dropWhile not_lt bs,
             [1 \<mapsto> take (Suc (length (takeWhile not_lt bs))) body])"
        by simp
      moreover have "take (Suc (length (takeWhile not_lt bs))) body = b # takeWhile not_lt bs"
        using Cons by (simp add: takeWhile_eq_take [symmetric])
      ultimately have "run (seq [Lit opn, Grp 1 (Plus not_lt), Lit cl]) (p, s, Map.empty) =
          (if prefix cl (dropWhile not_lt bs)
           then [(Suc q + length (takeWhile not_lt bs) + length cl,
                  drop (length cl) (dropWhile not_lt bs), [1 \<mapsto> b # takeWhile not_lt bs])]
           else [])"
        by simp
      then show ?thesis
        using True
        by (simp add: match_at_def Let_def body_def [symmetric] v rest q_def)
    qed
  qed
qed

lemma tag_pattern_findall:
  "opn = ''<'' @ tag @ ''>'' \<Longrightarrow> cl = ''</'' @ tag @ ''>'' \<Longrightarrow>
   map (\<lambda>m. case snd m 1 of None \<Rightarrow> [] | Some g \<Rightarrow> g)
     (finditer (seq [Lit opn, Grp 1 (Plus not_lt), Lit cl]) p s) = tag_values tag s"
proof (induction tag s arbitrary: p rule: tag_values.induct)
  case (1 tag)
  then have cl: "cl = CHR ''<'' # (''/'' @ tag @ ''>'')" and opn: "opn \<noteq> []"
    by simp_all
  have "match_at (seq [Lit opn, Grp 1 (Plus not_lt), Lit cl]) p [] = None"
    using tag_pattern_match [OF cl, of opn p "[]"] opn by (simp add: Let_def)
  then show ?case by simp
next
  case (2 tag x xs)
  note opn = "2.prems"(1) and cl = "2.prems"(2)
  let ?r = "seq [Lit opn, Grp 1 (Plus not_lt), Lit cl]"
  define body where "body = drop (length opn) (x # xs)"
  define v where "v = takeWhile not_lt body"
  define rest where "rest = dropWhile not_lt body"
  have not_lt: "not_lt = (\<lambda>c. c \<noteq> CHR ''<'')"
    by (simp add: not_lt_def fun_eq_iff)
  have cl': "cl = CHR ''<'' # (''/'' @ tag @ ''>'')"
    using cl by simp
  have m: "match_at ?r p (x # xs) =
      (if prefix opn (x # xs) \<and> v \<noteq> [] \<and> prefix cl rest
       then Some (p + length opn + length v + length cl, [1 \<mapsto> v]) else None)"
    using tag_pattern_match [OF cl', of opn p "x # xs"]
    by (simp add: Let_def body_def v_def rest_def)
  show ?case
  proof (cases "prefix opn (x # xs) \<and> v \<noteq> [] \<and> prefix cl rest")
    case False
    then have no: "\<not> (prefix (''<'' @ tag @ ''>'') (x # xs) \<and>
        takeWhile (\<lambda>c. c \<noteq> CHR ''<'') (drop (length (''<'' @ tag @ ''>'')) (x # xs)) \<noteq> [] \<and>
        prefix (''</'' @ tag @ ''>'')
          (dropWhile (\<lambda>c. c \<noteq> CHR ''<'') (drop (length (''<'' @ tag @ ''>'')) (x # xs))))"
      unfolding body_def v_def rest_def not_lt opn cl .
    then have "tag_values tag (x # xs) = tag_values tag xs"
      by (simp only: tag_values.simps Let_def simp_thms if_False)
    moreover have "match_at ?r p (x # xs) = None"
      unfolding m using False by (rule if_not_P)
    then have "finditer ?r p (x # xs) = finditer ?r (Suc p) xs"
      by simp
    moreover have "map (\<lambda>m. case snd m 1 of None \<Rightarrow> [] | Some g \<Rightarrow> g)
           (finditer ?r (Suc p) xs) = tag_values tag xs"
      by (rule "2.IH"(2) [OF refl refl refl refl refl no opn cl])
    ultimately show ?thesis by simp
  next
    case True
    then have yes: "prefix (''<'' @ tag @ ''>'') (x # xs) \<and>
        takeWhile (\<lambda>c. c \<noteq> CHR ''<'') (drop (length (''<'' @ tag @ ''>'')) (x # xs)) \<noteq> [] \<and>
        prefix (''</'' @ tag @ ''>'')
          (dropWhile (\<lambda>c. c \<noteq> CHR ''<'') (drop (length (''<'' @ tag @ ''>'')) (x # xs)))"
      unfolding body_def v_def rest_def not_lt opn cl .
    let ?e = "p + length opn + length v + length cl"
    from True have "x # xs = opn @ body"
      by (auto simp: body_def prefix_def)
    then have whole: "x # xs = opn @ v @ rest"
      by (simp add: v_def rest_def)
    have opn_len: "0 < length opn" using opn by simp
    define n where "n = length opn + length v + length cl"
    have n: "0 < n" "?e - Suc p = n - 1"
      using opn_len by (simp_all add: n_def)
    then have "drop (?e - Suc p) xs = drop n (x # xs)"
      by (cases n) simp_all
    also have "\<dots> = drop (length cl) rest"
      unfolding whole n_def by (simp add: add.commute)
    finally have next_text: "drop (?e - Suc p) xs = drop (length cl) rest" .
    have "Suc p \<le> ?e" using opn_len by linarith
    then have next_pos: "max ?e (Suc p) = ?e" by (rule max_absorb1)
    have rest_eq: "drop (length cl) rest =
        drop (length (''</'' @ tag @ ''>''))
          (dropWhile (\<lambda>c. c \<noteq> CHR ''<'') (drop (length (''<'' @ tag @ ''>'')) (x # xs)))"
      unfolding body_def rest_def not_lt opn cl ..
    have v_eq: "v = takeWhile (\<lambda>c. c \<noteq> CHR ''<'') (drop (length (''<'' @ tag @ ''>'')) (x # xs))"
      unfolding body_def v_def not_lt opn ..
    have "tag_values tag (x # xs) = v # tag_values tag (drop (length cl) rest)"
      unfolding rest_eq v_eq by (simp only: tag_values.simps Let_def yes simp_thms if_True)
    moreover have "match_at ?r p (x # xs) = Some (?e, [1 \<mapsto> v])"
      unfolding m using True by (rule if_P)
    then have "finditer ?r p (x # xs) =
        (?e, [1 \<mapsto> v]) # finditer ?r ?e (drop (length cl) rest)"
      by (simp only: finditer.simps option.case prod.case next_pos next_text)
    moreover have "map (\<lambda>m. case snd m 1 of None \<Rightarrow> [] | Some g \<Rightarrow> g)
           (finditer ?r ?e (drop (length cl) rest)) = tag_values tag (drop (length cl) rest)"
      unfolding rest_eq by (rule "2.IH"(1) [OF refl refl refl refl refl yes opn cl])
    ultimately show ?thesis by simp
  qed
qed

lemma pom_findall_tag_values:
  "findall POM_ARTIFACT_PATTERN content = tag_values ''artifactId'' content"
  "findall POM_GROUP_PATTERN content = tag_values ''groupId'' content"
  "findall POM_VERSION_PATTERN content = tag_values ''version'' content"
  unfolding findall_def POM_ARTIFACT_PATTERN_def POM_GROUP_PATTERN_def POM_VERSION_PATTERN_def
  by (rule tag_pattern_findall; simp)+

text \<open>
  C5: for every text, with \<open>artifacts\<close>, \<open>groups\<close> and \<open>versions\<close> the values of the
  \<open>artifactId\<close>, \<open>groupId\<close> and \<open>version\<close> elements in document order (which is what
  \<open>findall\<close> collects with the three patterns), \<open>parse_pom\<close> returns exactly
  \<open>min (length artifacts) (length versions)\<close> pairs, and the \<open>i\<close>-th pair has the name
  \<open>groups[i]:artifacts[i]\<close>, with \<open>unknown\<close> in place of the group when \<open>i\<close> is beyond the
  list of groups, and the version \<open>versions[i]\<close>.
\<close>

theorem parse_pom_positional_pairs:
  fixes content :: string
  defines "artifacts \<equiv> tag_values ''artifactId'' content"
    and "groups \<equiv> tag_values ''groupId'' content"
    and "versions \<equiv> tag_values ''version'' content"
  shows "length (parse_pom content) = min (length artifacts) (length versions) \<and>
    (\<forall>i < min (length artifacts) (length versions).
       parse_pom content ! i =
         (PyStr ((if i < length groups then groups ! i else ''unknown'') @ '':'' @ artifacts ! i),
          PyStr (versions ! i)))"
  by (simp add: parse_pom_def pom_pair_def Let_def pom_findall_tag_values
        artifacts_def groups_def versions_def)

text \<open>
  A text with one group, two artifacts and two versions; the third \<open>version\<close> element is
  empty and is no value.
\<close>

lemma pom_example_values:
  "findall POM_ARTIFACT_PATTERN
     ''<groupId>g</groupId><artifactId>a</artifactId><version>1</version><artifactId>b</artifactId><version>2</version><version></version>'' = [''a'', ''b'']"
  "findall POM_GROUP_PATTERN
     ''<groupId>g</groupId><artifactId>a</artifactId><version>1</version><artifactId>b</artifactId><version>2</version><version></version>'' = [''g'']"
  "findall POM_VERSION_PATTERN
     ''<groupId>g</groupId><artifactId>a</artifactId><version>1</version><artifactId>b</artifactId><version>2</version><version></version>'' = [''1'', ''2'']"
  by (simp_all add: findall_def match_at_def POM_ARTIFACT_PATTERN_def POM_GROUP_PATTERN_def
    POM_VERSION_PATTERN_def seq_def not_lt_def)

theorem parse_pom_positional_pairs_witness:
  "length (parse_pom ''<groupId>g</groupId><artifactId>a</artifactId><version>1</version><artifactId>b</artifactId><version>2</version><version></version>'') = 2 \<and>
   parse_pom ''<groupId>g</groupId><artifactId>a</artifactId><version>1</version><artifactId>b</artifactId><version>2</version><version></version>'' ! 0 = (PyStr ''g:a'', PyStr ''1'') \<and>
   parse_pom ''<groupId>g</groupId><artifactId>a</artifactId><version>1</version><artifactId>b</artifactId><version>2</version><version></version>'' ! 1 = (PyStr ''unknown:b'', PyStr ''2'')"
  using parse_pom_positional_pairs [of "''<groupId>g</groupId><artifactId>a</artifactId><version>1</version><artifactId>b</artifactId><version>2</version><version></version>''"]
  by (simp add: pom_example_values [unfolded pom_findall_tag_values] del: tag_values.simps)

section \<open>package.json\<close>

text \<open>
  A line that opens a \<open>dependencies\<close> or \<open>devDependencies\<close> block ends its round of the
  loop at once: whatever the state of the loop and whatever else the line holds, the round
  sets the flag and adds no pair, and a closing brace on the line is not looked at. So a
  text of one line that opens a block gives the empty list.
\<close>

lemma package_json_opening_line_round:
  "(opens_deps_block line \<longrightarrow> package_json_step (in_deps, deps) line = (True, deps)) \<and>
   (opens_deps_block content \<and> CHR 0x0A \<notin> set content \<longrightarrow> parse_package_json content = [])"
  by (simp add: package_json_step_def parse_package_json_def lines_of_def split_on_no_sep)

text \<open>
  The root file of \<open>test_directory_pruning\<close> in the repository's tests is such a text; the
  test expects the one dependency \<open>valid\<close> from it, and the parser returns nothing.
\<close>

lemma parse_package_json_pruning_test_input:
  \<open>parse_package_json ''{"dependencies": {"valid": "1.0.0"}}'' = []\<close>
  using package_json_opening_line_round
    [of \<open>''{"dependencies": {"valid": "1.0.0"}}''\<close> False \<open>[]\<close>
        \<open>''{"dependencies": {"valid": "1.0.0"}}''\<close>]
  by (simp add: opens_deps_block_def)

text \<open>
  C9: a \<open>package.json\<close> whose whole \<open>dependencies\<close> object sits on one line should, by the
  claim, give the empty list. On the text below the code returns a pair all the same, and
  a wrong one: the round of the opening line ends before the pair \<open>a\<close> and the closing
  brace after it are looked at, so the block stays open, and the next line
  \<open>"name": "demo",\<close>, which lies outside the \<open>dependencies\<close> object, is taken for a
  dependency. The dependency \<open>a\<close> itself is lost, where the repository's test of a one-line
  object expects it to be found.
\<close>

theorem parse_package_json_one_line_object_input:
  \<open>opens_deps_block ''  "dependencies": {"a": "1.0"},'' \<and>
   parse_package_json
     ''{\<newline>  "dependencies": {"a": "1.0"},\<newline>  "name": "demo",\<newline>  "private": true\<newline>}'' =
   [(PyStr ''name'', PyStr ''demo'')]\<close>
  by (simp add: opens_deps_block_def parse_package_json_def lines_of_def package_json_step_def
    re_search_def match_at_def PACKAGE_JSON_PATTERN_def seq_def isspace_def not_dquote_def
    group_def)

section \<open>The CSV round trip\<close>

lemma rd_unquoted_run:
  "\<forall>c\<in>set f. \<not> csv_special c \<Longrightarrow>
   foldl rd_step (InField, row, fld, recs) f = (InField, row, fld @ f, recs)"
  by (induction f arbitrary: fld) (simp_all add: csv_special_def)

lemma rd_quoted_run:
  "foldl rd_step (InQuotedField, row, fld, recs) (csv_escape f) =
   (InQuotedField, row, fld @ f, recs)"
  by (induction f arbitrary: fld) (simp_all add: csv_escape_def)

lemma rd_field_from_start_field:
  "foldl rd_step (StartField, row, [], recs) (csv_field f) = after_field StartField row f recs"
proof (cases "list_ex csv_special f")
  case True
  then show ?thesis
    by (simp add: csv_field_def after_field_def start_field_def rd_quoted_run)
next
  case False
  then have plain: "\<forall>c\<in>set f. \<not> csv_special c"
    by (simp add: list_ex_iff)
  show ?thesis
  proof (cases f)
    case Nil
    then show ?thesis by (simp add: csv_field_def after_field_def)
  next
    case (Cons c cs)
    with plain have "\<not> csv_special c" "\<forall>c\<in>set cs. \<not> csv_special c" by simp_all
    then show ?thesis
      using False Cons
      by (simp add: csv_field_def after_field_def start_field_def rd_unquoted_run)
         (simp add: csv_special_def)
  qed
qed

lemma rd_field_from_start_record:
  "foldl rd_step (StartRecord, [], [], recs) (csv_field f) = after_field StartRecord [] f recs"
proof (cases "list_ex csv_special f")
  case True
  then show ?thesis
    by (simp add: csv_field_def after_field_def start_record_def start_field_def rd_quoted_run)
next
  case False
  then have plain: "\<forall>c\<in>set f. \<not> csv_special c"
    by (simp add: list_ex_iff)
  show ?thesis
  proof (cases f)
    case Nil
    then show ?thesis by (simp add: csv_field_def after_field_def)
  next
    case (Cons c cs)
    with plain have "\<not> csv_special c" "\<forall>c\<in>set cs. \<not> csv_special c" by simp_all
    then show ?thesis
      using False Cons
      by (simp add: csv_field_def after_field_def start_record_def start_field_def
            rd_unquoted_run)
         (simp add: csv_special_def)
  qed
qed

lemma rd_comma_after_field:
  "st = StartField \<or> st = StartRecord \<and> row = [] \<Longrightarrow>
   rd_step (after_field st row f recs) (CHR '','') = (StartField, row @ [f], [], recs)"
  by (auto simp: after_field_def start_field_def start_record_def)

lemma rd_crlf_after_field:
  "foldl rd_step (after_field StartField row f recs) [CHR 0x0D, CHR 0x0A] =
   (StartRecord, [], [], recs @ [row @ [f]])"
  by (auto simp: after_field_def start_field_def)

lemma rd_fields:
  "fs \<noteq> [] \<Longrightarrow>
   foldl rd_step (StartField, row, [], recs)
     (join_with (CHR '','') (map csv_field fs) @ [CHR 0x0D, CHR 0x0A]) =
   (StartRecord, [], [], recs @ [row @ fs])"
proof (induction fs arbitrary: row)
  case Nil
  then show ?case by simp
next
  case (Cons f fs)
  show ?case
  proof (cases fs)
    case Nil
    then show ?thesis
      by (simp only: list.map join_with.simps foldl_append rd_field_from_start_field
            rd_crlf_after_field)
  next
    case (Cons g gs)
    have "foldl rd_step (StartField, row, [], recs)
            (join_with (CHR '','') (map csv_field (f # fs)) @ [CHR 0x0D, CHR 0x0A]) =
          foldl rd_step (rd_step (after_field StartField row f recs) (CHR '',''))
            (join_with (CHR '','') (map csv_field fs) @ [CHR 0x0D, CHR 0x0A])"
      using Cons by (simp add: rd_field_from_start_field)
    also have "\<dots> = (StartRecord, [], [], recs @ [(row @ [f]) @ fs])"
      using Cons.IH [of "row @ [f]"] Cons by (simp add: rd_comma_after_field)
    finally show ?thesis by simp
  qed
qed

lemma rd_writerow:
  assumes "2 \<le> length fs"
  shows "foldl rd_step (StartRecord, [], [], recs) (writerow fs) =
         (StartRecord, [], [], recs @ [fs])"
proof -
  from assms obtain f g gs where fs: "fs = f # g # gs"
    by (cases fs; cases "tl fs") auto
  have "foldl rd_step (StartRecord, [], [], recs) (writerow fs) =
        foldl rd_step (rd_step (after_field StartRecord [] f recs) (CHR '',''))
          (join_with (CHR '','') (map csv_field (g # gs)) @ [CHR 0x0D, CHR 0x0A])"
    by (simp add: fs writerow_def rd_field_from_start_record)
  also have "\<dots> = (StartRecord, [], [], recs @ [[f] @ (g # gs)])"
    using rd_fields [of "g # gs" "[f]" recs] by (simp add: rd_comma_after_field)
  finally show ?thesis by (simp add: fs)
qed

lemma rd_writerows:
  "\<forall>fs\<in>set rows. 2 \<le> length fs \<Longrightarrow>
   foldl rd_step (StartRecord, [], [], recs) (concat (map writerow rows)) =
   (StartRecord, [], [], recs @ rows)"
  by (induction rows arbitrary: recs) (simp_all add: rd_writerow)

lemma csv_read_writerows:
  "\<forall>fs\<in>set rows. 2 \<le> length fs \<Longrightarrow> csv_read (concat (map writerow rows)) = rows"
  by (simp add: csv_read_def rd_writerows)

lemma csv_output_rows:
  "csv_output deps = concat (map writerow (fieldnames # map (map csv_text \<circ> dict_to_list) deps))"
  by (simp add: csv_output_def comp_def)

text \<open>
  C7: for a list of records that is not empty, \<open>write_csv\<close> (when the output file can be
  opened) writes one file whose text is the header row \<open>ecosystem,package,version,file\<close>
  followed by one row per record; read back under the standard quoting rules, the text
  gives the header and, for every record in order, exactly its four values, whatever
  characters (commas, quotes, line breaks) they hold. A string is written as it is
  (\<open>csv_text (PyStr s) = s\<close>).
\<close>

theorem write_csv_round_trip:
  assumes "deps \<noteq> []" and "open_w output_file = None"
  shows "files_written (fst (write_csv open_w deps output_file w)) =
           files_written w @ [(output_file, csv_output deps)] \<and>
         prefix (''ecosystem,package,version,file'' @ [CHR 0x0D, CHR 0x0A]) (csv_output deps) \<and>
         csv_read (csv_output deps) =
           [''ecosystem'', ''package'', ''version'', ''file''] #
           map (\<lambda>r. [ecosystem r, csv_text (package r), csv_text (version r), file' r]) deps"
proof -
  have "\<forall>fs\<in>set (fieldnames # map (map csv_text \<circ> dict_to_list) deps). 2 \<le> length fs"
    by (simp add: fieldnames_def dict_to_list_def)
  then have "csv_read (csv_output deps) = fieldnames # map (map csv_text \<circ> dict_to_list) deps"
    unfolding csv_output_rows by (rule csv_read_writerows)
  moreover have "prefix (''ecosystem,package,version,file'' @ [CHR 0x0D, CHR 0x0A])
      (csv_output deps)"
    by (simp add: csv_output_def writerow_def fieldnames_def csv_field_def csv_special_def)
  ultimately show ?thesis
    using assms by (simp add: write_csv_def fieldnames_def dict_to_list_def comp_def)
qed

text \<open>A record with a comma in one value and quotes in another.\<close>

theorem write_csv_round_trip_witness:
  \<open>csv_read (csv_output
      [\<lparr>ecosystem = ''npm'', package = PyStr ''a,b'', version = PyStr ''say "1.0"'',
        file' = ''web/package.json''\<rparr>]) =
    [[''ecosystem'', ''package'', ''version'', ''file''],
     [''npm'', ''a,b'', ''say "1.0"'', ''web/package.json'']] \<and>
   csv_output
      [\<lparr>ecosystem = ''npm'', package = PyStr ''a,b'', version = PyStr ''say "1.0"'',
        file' = ''web/package.json''\<rparr>] =
    ''ecosystem,package,version,file'' @ [CHR 0x0D, CHR 0x0A] @
    ''npm,"a,b","say ""1.0""",web/package.json'' @ [CHR 0x0D, CHR 0x0A]\<close>
  using write_csv_round_trip
    [of \<open>[\<lparr>ecosystem = ''npm'', package = PyStr ''a,b'', version = PyStr ''say "1.0"'',
            file' = ''web/package.json''\<rparr>]\<close> "\<lambda>_. None" "''out.csv''"
        "\<lparr>out_stdout = [], out_stderr = [], files_written = []\<rparr>"]
  by (simp add: csv_output_def writerow_def fieldnames_def dict_to_list_def csv_field_def
        csv_special_def csv_escape_def)

section \<open>Facts about the matcher\<close>

lemma greedy_progress:
  "(p', s', c') \<in> set (greedy f (p, s, c)) \<Longrightarrow>
   p \<le> p' \<and> p' - p \<le> length s \<and> s' = drop (p' - p) s \<and> c' = c"
proof (induction s arbitrary: p)
  case Nil
  then show ?case by simp
next
  case (Cons x xs)
  from Cons.prems consider
    (more) "f x" "(p', s', c') \<in> set (greedy f (Suc p, xs, c))"
    | (stop) "(p', s', c') = (p, x # xs, c)"
    by (auto split: if_splits)
  then show ?case
  proof cases
    case more
    from Cons.IH [OF more(2)] have ih: "Suc p \<le> p'" "p' - Suc p \<le> length xs"
      "s' = drop (p' - Suc p) xs" "c' = c" by simp_all
    from ih(1) have "p' - p = Suc (p' - Suc p)" by arith
    with ih show ?thesis by simp
  next
    case stop
    then show ?thesis by simp
  qed
qed

lemma run_progress:
  "(p', s', c') \<in> set (run r (p, s, c)) \<Longrightarrow>
   p \<le> p' \<and> p' - p \<le> length s \<and> s' = drop (p' - p) s"
proof (induction r arbitrary: p s c p' s' c')
  case (Lit w)
  then show ?case by (auto simp: prefix_def split: if_splits)
next
  case (Cls f)
  then show ?case by (auto split: list.splits if_splits)
next
  case (Star f)
  then show ?case using greedy_progress [of p' s' c' f p s c] by simp
next
  case (Plus f)
  then obtain x xs where s: "s = x # xs" and "f x"
    and "(p', s', c') \<in> set (greedy f (Suc p, xs, c))"
    by (auto split: list.splits if_splits)
  with greedy_progress [of p' s' c' f "Suc p" xs c]
  have ih: "Suc p \<le> p'" "p' - Suc p \<le> length xs" "s' = drop (p' - Suc p) xs" by simp_all
  from ih(1) have "p' - p = Suc (p' - Suc p)" by arith
  with ih s show ?case by simp
next
  case (Opt r)
  then show ?case by auto
next
  case (Seq a b)
  from Seq.prems obtain p1 s1 c1 where
    a: "(p1, s1, c1) \<in> set (run a (p, s, c))" and b: "(p', s', c') \<in> set (run b (p1, s1, c1))"
    by auto
  from Seq.IH(1) [OF a] Seq.IH(2) [OF b] show ?case
    by (auto simp: add.commute)
next
  case (Grp i r)
  then show ?case by auto
qed (auto split: if_splits)

lemma run_consumes:
  "consumes r \<Longrightarrow> (p', s', c') \<in> set (run r (p, s, c)) \<Longrightarrow> p < p'"
proof (induction r arbitrary: p s c p' s' c')
  case (Plus f)
  then obtain x xs where "(p', s', c') \<in> set (greedy f (Suc p, xs, c))"
    by (auto split: list.splits if_splits)
  with greedy_progress [of p' s' c' f "Suc p" xs c] show ?case by simp
next
  case (Seq a b)
  from Seq.prems obtain p1 s1 c1 where
    a: "(p1, s1, c1) \<in> set (run a (p, s, c))" and b: "(p', s', c') \<in> set (run b (p1, s1, c1))"
    by auto
  from run_progress [OF a] run_progress [OF b] Seq.IH(1) [OF _ a] Seq.IH(2) [OF _ b] Seq.prems(1)
  show ?case by auto
next
  case (Grp i r)
  then show ?case by auto
qed (auto split: list.splits if_splits)

lemma run_untouched:
  "\<not> touches i r \<Longrightarrow> (p', s', c') \<in> set (run r (p, s, c)) \<Longrightarrow> c' i = c i"
proof (induction r arbitrary: p s c p' s' c')
  case (Star f)
  then show ?case using greedy_progress [of p' s' c' f p s c] by simp
next
  case (Plus f)
  then obtain x xs where "(p', s', c') \<in> set (greedy f (Suc p, xs, c))"
    by (auto split: list.splits if_splits)
  with greedy_progress [of p' s' c' f "Suc p" xs c] show ?case by simp
next
  case (Seq a b)
  from Seq.prems obtain p1 s1 c1 where
    a: "(p1, s1, c1) \<in> set (run a (p, s, c))" and b: "(p', s', c') \<in> set (run b (p1, s1, c1))"
    by auto
  from Seq.IH(1) [OF _ a] Seq.IH(2) [OF _ b] Seq.prems(1) show ?case by simp
next
  case (Opt r)
  then show ?case by auto
next
  case (Grp j r)
  then show ?case by auto
qed (auto split: list.splits if_splits)

lemma run_grp_set:
  "grp_set i r \<Longrightarrow> (p', s', c') \<in> set (run r (p, s, c)) \<Longrightarrow> \<exists>g. c' i = Some g \<and> g \<noteq> []"
proof (induction r arbitrary: p s c p' s' c')
  case (Seq a b)
  from Seq.prems(2) obtain p1 s1 c1 where
    a: "(p1, s1, c1) \<in> set (run a (p, s, c))" and b: "(p', s', c') \<in> set (run b (p1, s1, c1))"
    by auto
  from Seq.prems(1) consider "grp_set i a" "\<not> touches i b" | "grp_set i b" by auto
  then show ?case
  proof cases
    case 1
    with Seq.IH(1) [OF _ a] run_untouched [OF _ b] show ?thesis by simp
  next
    case 2
    with Seq.IH(2) [OF _ b] show ?thesis by simp
  qed
next
  case (Grp j r)
  from Grp.prems(2) obtain c0 where
    r: "(p', s', c0) \<in> set (run r (p, s, c))" and c': "c' = c0(j \<mapsto> take (p' - p) s)"
    by auto
  show ?case
  proof (cases "i = j")
    case True
    with Grp.prems(1) have "consumes r" by simp
    from run_consumes [OF this r] run_progress [OF r] have "take (p' - p) s \<noteq> []"
      by auto
    with True c' show ?thesis by simp
  next
    case False
    with Grp.prems(1) Grp.IH [OF _ r] c' show ?thesis by simp
  qed
qed simp_all

lemma match_at_group:
  assumes "match_at r p s = Some m" and "grp_set i r"
  shows "\<exists>g. group m i = PyStr g \<and> g \<noteq> []"
proof -
  from assms(1) obtain e s' c rest where "run r (p, s, Map.empty) = (e, s', c) # rest" "m = (e, c)"
    by (auto simp: match_at_def split: list.splits)
  then have "(e, s', c) \<in> set (run r (p, s, Map.empty))" "snd m = c" by simp_all
  with run_grp_set [OF assms(2)] show ?thesis
    by (fastforce simp: group_def)
qed

lemma search_from_group:
  "search_from r p s = Some m \<Longrightarrow> grp_set i r \<Longrightarrow> \<exists>g. group m i = PyStr g \<and> g \<noteq> []"
  by (induction s arbitrary: p) (auto split: option.splits dest: match_at_group)

lemma finditer_group:
  "m \<in> set (finditer r p s) \<Longrightarrow> grp_set i r \<Longrightarrow> \<exists>g. group m i = PyStr g \<and> g \<noteq> []"
proof (induction r p s rule: finditer.induct)
  case (1 r p)
  then show ?case by (auto split: option.splits dest: match_at_group [OF sym])
next
  case (2 r p x xs)
  show ?case
  proof (cases "match_at r p (x # xs)")
    case None
    with 2 show ?thesis by simp
  next
    case (Some a)
    obtain e c where a: "a = (e, c)" by (cases a)
    from "2.prems"(1) Some a consider "m = (e, c)"
      | "m \<in> set (finditer r (max e (Suc p)) (drop (max e (Suc p) - Suc p) xs))"
      by auto
    then show ?thesis
    proof cases
      case 1
      with Some a match_at_group [OF _ "2.prems"(2)] show ?thesis by simp
    next
      case 2
      from "2.IH"(2) [OF Some a [symmetric] 2 "2.prems"(2)] show ?thesis .
    qed
  qed
qed

lemma foldl_invariant:
  "(\<And>s x. x \<in> set xs \<Longrightarrow> I s \<Longrightarrow> I (f s x)) \<Longrightarrow> I s \<Longrightarrow> I (foldl f s xs)"
  by (induction xs arbitrary: s) simp_all

section \<open>Every parser names its packages\<close>

lemma package_json_pattern_group: "grp_set 1 PACKAGE_JSON_PATTERN"
  by (simp add: PACKAGE_JSON_PATTERN_def seq_def)

lemma requirements_pattern_group: "grp_set 1 REQUIREMENTS_PATTERN"
  by (simp add: REQUIREMENTS_PATTERN_def seq_def)

lemma go_mod_pattern_group: "grp_set 1 GO_MOD_PATTERN"
  by (simp add: GO_MOD_PATTERN_def seq_def)

lemma gemfile_pattern_group: "grp_set 1 GEMFILE_PATTERN"
  by (simp add: GEMFILE_PATTERN_def seq_def)

lemma cargo_pattern_group: "grp_set 1 CARGO_PATTERN"
  by (simp add: CARGO_PATTERN_def seq_def)

lemma dep_pattern_group: "grp_set 1 dep_pattern"
  by (simp add: dep_pattern_def seq_def)

lemma named_group: "group m 1 = PyStr g \<Longrightarrow> g \<noteq> [] \<Longrightarrow> named (group m 1, v)"
  by (simp add: named_def)

lemma package_json_step_named:
  assumes "\<forall>d\<in>set (snd st). named d"
  shows "\<forall>d\<in>set (snd (package_json_step st line)). named d"
proof (cases "re_search PACKAGE_JSON_PATTERN line")
  case None
  with assms show ?thesis
    by (cases st) (simp add: package_json_step_def)
next
  case (Some m)
  then have "named (group m 1, group m 2)"
    using search_from_group [OF _ package_json_pattern_group, of 0 line m]
    by (auto simp: re_search_def named_def)
  with assms Some show ?thesis
    by (cases st) (simp add: package_json_step_def)
qed

lemma parse_package_json_named: "\<forall>d\<in>set (parse_package_json content). named d"
  unfolding parse_package_json_def
  by (rule foldl_invariant [where I = "\<lambda>st. \<forall>d\<in>set (snd st). named d"])
     (simp_all add: package_json_step_named)

lemma composer_step_named:
  assumes "\<forall>d\<in>set (snd st). named d"
  shows "\<forall>d\<in>set (snd (composer_step st line)). named d"
proof (cases "re_search PACKAGE_JSON_PATTERN line")
  case None
  with assms show ?thesis
    by (cases st) (simp add: composer_step_def)
next
  case (Some m)
  then have "named (group m 1, group m 2)"
    using search_from_group [OF _ package_json_pattern_group, of 0 line m]
    by (auto simp: re_search_def named_def)
  with assms Some show ?thesis
    by (cases st) (simp add: composer_step_def)
qed

lemma parse_composer_named: "\<forall>d\<in>set (parse_composer content). named d"
  unfolding parse_composer_def
  by (rule foldl_invariant [where I = "\<lambda>st. \<forall>d\<in>set (snd st). named d"])
     (simp_all add: composer_step_named)

lemma requirements_step_named:
  assumes "\<forall>d\<in>set deps. named d"
  shows "\<forall>d\<in>set (requirements_step deps line). named d"
proof (cases "re_match REQUIREMENTS_PATTERN (strip line)")
  case None
  with assms show ?thesis
    by (simp add: requirements_step_def Let_def)
next
  case (Some m)
  then have "named (group m 1, py_or (group m 2) (PyStr ''*''))"
    using match_at_group [OF _ requirements_pattern_group, of 0 "strip line" m]
    by (auto simp: re_match_def named_def)
  with assms Some show ?thesis
    by (simp add: requirements_step_def Let_def)
qed

lemma parse_requirements_named: "\<forall>d\<in>set (parse_requirements content). named d"
  unfolding parse_requirements_def
  by (rule foldl_invariant [where I = "\<lambda>deps. \<forall>d\<in>set deps. named d"])
     (simp_all add: requirements_step_named)

lemma pipfile_step_named:
  assumes "\<forall>d\<in>set (snd st). named d"
  shows "\<forall>d\<in>set (snd (pipfile_step st line)). named d"
  using assms
  by (cases st) (auto simp: pipfile_step_def Let_def named_def split: prod.splits)

lemma parse_pipfile_named: "\<forall>d\<in>set (parse_pipfile content). named d"
  unfolding parse_pipfile_def
  by (rule foldl_invariant [where I = "\<lambda>st. \<forall>d\<in>set (snd st). named d"])
     (simp_all add: pipfile_step_named)

lemma go_mod_step_named:
  assumes "\<forall>d\<in>set deps. named d"
  shows "\<forall>d\<in>set (go_mod_step deps line). named d"
proof (cases "re_match GO_MOD_PATTERN (strip line)")
  case None
  with assms show ?thesis
    by (simp add: go_mod_step_def Let_def)
next
  case (Some m)
  then have "named (group m 1, group m 2)"
    using match_at_group [OF _ go_mod_pattern_group, of 0 "strip line" m]
    by (auto simp: re_match_def named_def)
  with assms Some show ?thesis
    by (simp add: go_mod_step_def Let_def)
qed

lemma parse_go_mod_named: "\<forall>d\<in>set (parse_go_mod content). named d"
  unfolding parse_go_mod_def
  by (rule foldl_invariant [where I = "\<lambda>deps. \<forall>d\<in>set deps. named d"])
     (simp_all add: go_mod_step_named)

lemma parse_gemfile_named: "\<forall>d\<in>set (parse_gemfile content). named d"
  using finditer_group [OF _ gemfile_pattern_group]
  by (fastforce simp: parse_gemfile_def named_def)

lemma cargo_step_named:
  assumes "\<forall>d\<in>set (snd st). named d"
  shows "\<forall>d\<in>set (snd (cargo_step st line)). named d"
proof (cases "re_match CARGO_PATTERN line")
  case None
  with assms show ?thesis
    by (cases st) (simp add: cargo_step_def Let_def)
next
  case (Some m)
  then have "named (group m 1, group m 2)"
    using match_at_group [OF _ cargo_pattern_group, of 0 line m]
    by (auto simp: re_match_def named_def)
  with assms Some show ?thesis
    by (cases st) (simp add: cargo_step_def Let_def)
qed

lemma parse_cargo_named: "\<forall>d\<in>set (parse_cargo content). named d"
  unfolding parse_cargo_def
  by (rule foldl_invariant [where I = "\<lambda>st. \<forall>d\<in>set (snd st). named d"])
     (simp_all add: cargo_step_named)

lemma parse_pom_named: "\<forall>d\<in>set (parse_pom content). named d"
  by (auto simp: parse_pom_def pom_pair_def Let_def named_def)

lemma gradle_step_named:
  assumes "\<forall>d\<in>set deps. named d"
  shows "\<forall>d\<in>set (gradle_step deps m). named d"
  using assms
  by (auto simp: gradle_step_def named_def split: pyval.splits list.splits)

lemma parse_gradle_named: "\<forall>d\<in>set (parse_gradle content). named d"
  unfolding parse_gradle_def
  by (rule foldl_invariant [where I = "\<lambda>deps. \<forall>d\<in>set deps. named d"])
     (simp_all add: gradle_step_named)

lemma dependency_files_named:
  assumes "(filename, eco, parse) \<in> set DEPENDENCY_FILES" and "parse content = Inr deps"
  shows "\<forall>d\<in>set deps. named d"
  using assms parse_package_json_named [of content] parse_composer_named [of content]
    parse_requirements_named [of content] parse_pipfile_named [of content]
    parse_go_mod_named [of content] parse_gemfile_named [of content]
    parse_cargo_named [of content] parse_pom_named [of content]
    parse_gradle_named [of content]
  unfolding DEPENDENCY_FILES_def
  by (auto simp: parse_package_lock_def parse_pipfile_lock_def parse_go_sum_def
        parse_gemfile_lock_def parse_cargo_lock_def)

text \<open>Group 1 takes part in every match of the pattern of \<open>parse_gradle\<close>, so the branch
  of \<open>gradle_step\<close> for \<open>None\<close> is never taken.\<close>

lemma gradle_group_defined:
  "m \<in> set (finditer dep_pattern 0 content) \<Longrightarrow> group m 1 \<noteq> PyNone"
  using finditer_group [OF _ dep_pattern_group] by fastforce

section \<open>One file\<close>

lemma append_deps_eq:
  "append_deps eco root_path file_path ds acc =
     (case relative_to file_path root_path of
        Inl e \<Rightarrow> (acc, if ds = [] then None else Some e)
      | Inr rel \<Rightarrow> (acc @ records_of eco root_path file_path ds, None))"
  by (induction ds arbitrary: acc) (auto simp: records_of_def split: sum.splits)

text \<open>
  What one attempt, one call of \<open>_parse_dependency_file\<close> and one round of the loop over
  the files do to the scanner. The records added and the exception raised do not depend
  on the scanner.
\<close>

lemma read_and_parse_effect:
  "\<exists>recs r.
     (\<forall>sc. read_and_parse parse eco root_path file_path rd sc =
        (sc\<lparr>opened := opened sc @ [file_path], dependencies := dependencies sc @ recs\<rparr>, r)) \<and>
     (r \<noteq> None \<longrightarrow> recs = []) \<and>
     (r = None \<longrightarrow> (\<exists>content ds. rd = Inr content \<and> parse content = Inr ds \<and>
        recs = records_of eco root_path file_path ds))"
proof (cases rd)
  case (Inl e)
  then show ?thesis
    by (intro exI [of _ "[]"] exI [of _ "Some e"]) (simp add: read_and_parse_def)
next
  case (Inr content)
  show ?thesis
  proof (cases "parse content")
    case (Inl e)
    with Inr show ?thesis
      by (intro exI [of _ "[]"] exI [of _ "Some e"]) (simp add: read_and_parse_def)
  next
    case parsed: (Inr ds)
    show ?thesis
    proof (cases "relative_to file_path root_path")
      case (Inl e)
      with Inr parsed show ?thesis
        by (intro exI [of _ "[]"] exI [of _ "if ds = [] then None else Some e"])
           (simp add: read_and_parse_def append_deps_eq records_of_def)
    next
      case rel: (Inr rel)
      with Inr parsed show ?thesis
        by (intro exI [of _ "records_of eco root_path file_path ds"] exI [of _ None])
           (simp add: read_and_parse_def append_deps_eq)
    qed
  qed
qed

lemma parse_dependency_file_effect:
  "\<exists>k recs r. k \<le> 2 \<and>
     (\<forall>sc. parse_dependency_file tbl root_path file_path filename f sc =
        (sc\<lparr>opened := opened sc @ replicate k file_path,
            dependencies := dependencies sc @ recs\<rparr>, r)) \<and>
     (r \<noteq> None \<longrightarrow> recs = []) \<and>
     (r = None \<longrightarrow> (\<exists>eco parse content ds. map_of tbl filename = Some (eco, parse) \<and>
        (read_utf8 f = Inr content \<or> read_latin1 f = Inr content) \<and>
        parse content = Inr ds \<and> recs = records_of eco root_path file_path ds))"
proof (cases "map_of tbl filename")
  case None
  then show ?thesis
    by (intro exI [of _ 0] exI [of _ "[]"] exI [of _ "Some (OtherException ''KeyError'')"])
       (simp add: parse_dependency_file_def)
next
  case (Some a)
  obtain eco parse where a: "a = (eco, parse)" by (cases a)
  from read_and_parse_effect [of parse eco root_path file_path "read_utf8 f"]
  obtain recs1 r1 where first:
    "\<And>sc. read_and_parse parse eco root_path file_path (read_utf8 f) sc =
        (sc\<lparr>opened := opened sc @ [file_path], dependencies := dependencies sc @ recs1\<rparr>, r1)"
    "r1 \<noteq> None \<longrightarrow> recs1 = []"
    "r1 = None \<longrightarrow> (\<exists>content ds. read_utf8 f = Inr content \<and> parse content = Inr ds \<and>
        recs1 = records_of eco root_path file_path ds)"
    by blast
  show ?thesis
  proof (cases "\<exists>msg. r1 = Some (UnicodeDecodeError msg)")
    case True
    then obtain msg where r1: "r1 = Some (UnicodeDecodeError msg)" by blast
    with first(2) have recs1: "recs1 = []" by simp
    from read_and_parse_effect [of parse eco root_path file_path "read_latin1 f"]
    obtain recs2 r2 where second:
      "\<And>sc. read_and_parse parse eco root_path file_path (read_latin1 f) sc =
          (sc\<lparr>opened := opened sc @ [file_path], dependencies := dependencies sc @ recs2\<rparr>, r2)"
      "r2 \<noteq> None \<longrightarrow> recs2 = []"
      "r2 = None \<longrightarrow> (\<exists>content ds. read_latin1 f = Inr content \<and> parse content = Inr ds \<and>
          recs2 = records_of eco root_path file_path ds)"
      by blast
    have "\<forall>sc. parse_dependency_file tbl root_path file_path filename f sc =
        (sc\<lparr>opened := opened sc @ replicate 2 file_path,
            dependencies := dependencies sc @ recs2\<rparr>, r2)"
      using Some a r1 recs1 by (simp add: parse_dependency_file_def first(1) second(1) numeral_2_eq_2)
    with second(2,3) Some a show ?thesis
      by (intro exI [of _ 2] exI [of _ recs2] exI [of _ r2]) auto
  next
    case False
    then have "\<forall>sc. parse_dependency_file tbl root_path file_path filename f sc =
        (sc\<lparr>opened := opened sc @ replicate 1 file_path,
            dependencies := dependencies sc @ recs1\<rparr>, r1)"
      using Some a by (auto simp: parse_dependency_file_def first(1) split: option.splits exn.splits)
    with first(2,3) Some a show ?thesis
      by (intro exI [of _ 1] exI [of _ recs1] exI [of _ r1]) auto
  qed
qed

lemma scan_file_effect:
  "\<exists>k msgs recs. k \<le> 2 \<and> (filename \<notin> fst ` set tbl \<longrightarrow> k = 0) \<and>
     (\<forall>sc. scan_file tbl root_path cur sc (filename, f) =
        sc\<lparr>opened := opened sc @ replicate k (cur @ [filename]),
           dependencies := dependencies sc @ recs, stderr := stderr sc @ msgs\<rparr>) \<and>
     (\<forall>r\<in>set recs. \<exists>eco parse content ds. (filename, eco, parse) \<in> set tbl \<and>
        parse content = Inr ds \<and> r \<in> set (records_of eco root_path (cur @ [filename]) ds))"
proof (cases "filename \<in> fst ` set tbl")
  case False
  then show ?thesis
    by (intro exI [of _ 0] exI [of _ "[]"]) (simp add: scan_file_def)
next
  case True
  from parse_dependency_file_effect [of tbl root_path "cur @ [filename]" filename f]
  obtain k recs r where eff: "k \<le> 2"
    "\<And>sc. parse_dependency_file tbl root_path (cur @ [filename]) filename f sc =
        (sc\<lparr>opened := opened sc @ replicate k (cur @ [filename]),
            dependencies := dependencies sc @ recs\<rparr>, r)"
    "r \<noteq> None \<longrightarrow> recs = []"
    "r = None \<longrightarrow> (\<exists>eco parse content ds. map_of tbl filename = Some (eco, parse) \<and>
        (read_utf8 f = Inr content \<or> read_latin1 f = Inr content) \<and>
        parse content = Inr ds \<and> recs = records_of eco root_path (cur @ [filename]) ds)"
    by blast
  have origin: "\<forall>r\<in>set recs. \<exists>eco parse content ds. (filename, eco, parse) \<in> set tbl \<and>
        parse content = Inr ds \<and> r \<in> set (records_of eco root_path (cur @ [filename]) ds)"
  proof (cases r)
    case None
    with eff(4) show ?thesis by (auto dest: map_of_SomeD)
  next
    case (Some e)
    with eff(3) show ?thesis by simp
  qed
  obtain msgs where "\<forall>sc. scan_file tbl root_path cur sc (filename, f) =
        sc\<lparr>opened := opened sc @ replicate k (cur @ [filename]),
           dependencies := dependencies sc @ recs, stderr := stderr sc @ msgs\<rparr>"
  proof (cases r)
    case None
    with True eff(2) have "\<forall>sc. scan_file tbl root_path cur sc (filename, f) =
        sc\<lparr>opened := opened sc @ replicate k (cur @ [filename]),
           dependencies := dependencies sc @ recs, stderr := stderr sc @ []\<rparr>"
      by (simp add: scan_file_def Let_def)
    then show ?thesis by (rule that)
  next
    case (Some e)
    define msg where "msg =
      (case e of
         OSError m \<Rightarrow> ''Warning: Cannot read '' @ abs_str (cur @ [filename]) @ '': '' @ m
       | ValueError m \<Rightarrow>
           ''Warning: Invalid format in '' @ abs_str (cur @ [filename]) @ '': '' @ m
       | UnicodeDecodeError m \<Rightarrow>
           ''Warning: Invalid format in '' @ abs_str (cur @ [filename]) @ '': '' @ m
       | OtherException m \<Rightarrow>
           ''Error: Unexpected error parsing '' @ abs_str (cur @ [filename]) @ '': '' @ m)"
    have "\<forall>sc. scan_file tbl root_path cur sc (filename, f) =
        sc\<lparr>opened := opened sc @ replicate k (cur @ [filename]),
           dependencies := dependencies sc @ recs, stderr := stderr sc @ [msg]\<rparr>"
      using True eff(2) Some by (cases e) (simp_all add: scan_file_def warn_def msg_def Let_def)
    then show ?thesis by (rule that)
  qed
  with eff(1) origin True show ?thesis by blast
qed

lemma scan_files_effect:
  "\<exists>recs. \<forall>sc. dependencies (foldl (scan_file tbl root_path cur) sc files) =
     dependencies sc @ recs"
proof (induction files)
  case Nil
  show ?case by (intro exI [of _ "[]"]) simp
next
  case (Cons entry files)
  obtain filename f where entry: "entry = (filename, f)" by (cases entry)
  from scan_file_effect [of filename tbl root_path cur f]
  obtain k msgs recs1 where eff:
    "\<And>sc. scan_file tbl root_path cur sc (filename, f) =
        sc\<lparr>opened := opened sc @ replicate k (cur @ [filename]),
           dependencies := dependencies sc @ recs1, stderr := stderr sc @ msgs\<rparr>"
    by blast
  have one: "dependencies (scan_file tbl root_path cur sc entry) = dependencies sc @ recs1"
    for sc
    by (simp add: entry eff)
  from Cons.IH obtain recs2 where more:
    "\<And>sc. dependencies (foldl (scan_file tbl root_path cur) sc files) = dependencies sc @ recs2"
    by blast
  show ?case
    by (intro exI [of _ "recs1 @ recs2"]) (simp add: more one)
qed

lemma scan_files_frame:
  assumes "dependencies sc = dependencies sc'"
  shows "dependencies (foldl (scan_file tbl root_path cur) sc files) =
         dependencies (foldl (scan_file tbl root_path cur) sc' files)"
proof -
  from scan_files_effect [of tbl root_path cur files] obtain recs where
    "\<And>sc. dependencies (foldl (scan_file tbl root_path cur) sc files) = dependencies sc @ recs"
    by blast
  with assms show ?thesis by simp
qed

text \<open>
  C8: take any table of parsers (also parsers that raise), any state of the scanner and
  any candidate file. If \<open>_parse_dependency_file\<close> ends with an exception on it (from
  reading, from the parser or from building a record), the list of dependencies is what
  it was before; \<open>scan\<close> catches the exception, so the list is still the same after the
  round of the loop for that file, and the scan of the files that follow ends with the
  same list as if the failing file had not been there. If no exception is raised, the
  records appended are those of one complete list returned by the parser.
\<close>

theorem failing_file_leaves_dependencies:
  assumes "parse_dependency_file tbl root_path (cur @ [filename]) filename f sc = (sc1, r)"
  shows "(r \<noteq> None \<longrightarrow>
            dependencies sc1 = dependencies sc \<and>
            dependencies (scan_file tbl root_path cur sc (filename, f)) = dependencies sc \<and>
            dependencies (foldl (scan_file tbl root_path cur) sc ((filename, f) # rest)) =
              dependencies (foldl (scan_file tbl root_path cur) sc rest)) \<and>
         (r = None \<longrightarrow>
            (\<exists>eco parse content ds. map_of tbl filename = Some (eco, parse) \<and>
               parse content = Inr ds \<and>
               dependencies sc1 =
                 dependencies sc @ records_of eco root_path (cur @ [filename]) ds))"
proof -
  from parse_dependency_file_effect [of tbl root_path "cur @ [filename]" filename f]
  obtain k recs r' where eff:
    "\<And>sc. parse_dependency_file tbl root_path (cur @ [filename]) filename f sc =
        (sc\<lparr>opened := opened sc @ replicate k (cur @ [filename]),
            dependencies := dependencies sc @ recs\<rparr>, r')"
    "r' \<noteq> None \<longrightarrow> recs = []"
    "r' = None \<longrightarrow> (\<exists>eco parse content ds. map_of tbl filename = Some (eco, parse) \<and>
        (read_utf8 f = Inr content \<or> read_latin1 f = Inr content) \<and>
        parse content = Inr ds \<and> recs = records_of eco root_path (cur @ [filename]) ds)"
    by blast
  from assms eff(1) [of sc] have r: "r' = r"
    and sc1: "sc1 = sc\<lparr>opened := opened sc @ replicate k (cur @ [filename]),
            dependencies := dependencies sc @ recs\<rparr>"
    by simp_all
  show ?thesis
  proof (intro conjI impI)
    assume "r \<noteq> None"
    with r eff(2) have "recs = []" by simp
    with sc1 show unchanged: "dependencies sc1 = dependencies sc" by simp
    from \<open>r \<noteq> None\<close> obtain e where e: "r = Some e" by blast
    show after: "dependencies (scan_file tbl root_path cur sc (filename, f)) = dependencies sc"
      using assms e unchanged
      by (cases e) (simp_all add: scan_file_def Let_def warn_def)
    then show "dependencies (foldl (scan_file tbl root_path cur) sc ((filename, f) # rest)) =
      dependencies (foldl (scan_file tbl root_path cur) sc rest)"
      by (simp add: scan_files_frame [of "scan_file tbl root_path cur sc (filename, f)" sc])
  next
    assume "r = None"
    with r eff(3) sc1 show "\<exists>eco parse content ds. map_of tbl filename = Some (eco, parse) \<and>
               parse content = Inr ds \<and>
               dependencies sc1 =
                 dependencies sc @ records_of eco root_path (cur @ [filename]) ds"
      by auto
  qed
qed

lemma scan_dir_invariant:
  "(\<And>files subs d sub. T (Dir files subs) \<Longrightarrow> (d, sub) \<in> set subs \<Longrightarrow> T sub \<and> N d) \<Longrightarrow>
   (\<And>dirs sc entry. \<forall>d\<in>set dirs. d \<notin> PRUNE_DIRS \<and> N d \<Longrightarrow> I sc \<Longrightarrow>
        I (scan_file tbl root_path (cur0 @ dirs) sc entry)) \<Longrightarrow>
   T tree \<Longrightarrow> cur = cur0 @ dirs \<Longrightarrow> \<forall>d\<in>set dirs. d \<notin> PRUNE_DIRS \<and> N d \<Longrightarrow> I sc \<Longrightarrow>
   I (scan_dir tbl root_path cur tree sc)"
proof (induction tbl root_path cur tree sc arbitrary: dirs rule: scan_dir.induct)
  case (1 tbl root_path cur files subs sc)
  note hered = "1.prems"(1) and step = "1.prems"(2)
  have files_done: "I (foldl (scan_file tbl root_path cur) sc files)"
    unfolding \<open>cur = cur0 @ dirs\<close>
    by (rule foldl_invariant [where I = I]) (use "1.prems" in auto)
  have "I (foldl (\<lambda>s (d, sub). scan_dir tbl root_path (cur @ [d]) sub s)
             (foldl (scan_file tbl root_path cur) sc files)
             (filter (\<lambda>(d, sub). d \<notin> PRUNE_DIRS) subs))"
  proof (rule foldl_invariant [where I = I])
    fix s x
    assume x: "x \<in> set (filter (\<lambda>(d, sub). d \<notin> PRUNE_DIRS) subs)" and s: "I s"
    obtain d sub where dsub: "x = (d, sub)" by (cases x)
    with x have kept: "d \<notin> PRUNE_DIRS" "(d, sub) \<in> set subs" by auto
    from hered [OF "1.prems"(3) kept(2)] have "T sub" "N d" by simp_all
    with "1.prems"(5) kept(1) have dirs': "\<forall>d'\<in>set (dirs @ [d]). d' \<notin> PRUNE_DIRS \<and> N d'"
      by auto
    have "I (scan_dir tbl root_path (cur @ [d]) sub s)"
    proof (rule "1.IH" [OF refl refl x dsub [symmetric] hered step \<open>T sub\<close> _ dirs' s])
      show "cur @ [d] = cur0 @ dirs @ [d]" using \<open>cur = cur0 @ dirs\<close> by simp
    qed
    then show "I (case x of (d, sub) \<Rightarrow> scan_dir tbl root_path (cur @ [d]) sub s)"
      by (simp add: dsub)
  qed (rule files_done)
  then show ?case by (simp add: Let_def)
qed

text \<open>A \<open>go.mod\<close> that cannot be decoded as UTF-8 and has vanished at the second attempt: both
  attempts are made, the exception of the second one is reported, the one record found
  before stays alone, and the \<open>Gemfile\<close> that follows is scanned as if \<open>go.mod\<close> were absent.\<close>

theorem failing_file_leaves_dependencies_witness:
  \<open>parse_dependency_file DEPENDENCY_FILES [''srv'', ''app''] ([''srv'', ''app''] @ [''go.mod''])
     ''go.mod'' (File (Inl (UnicodeDecodeError ''invalid start byte'')) (Inl (OSError ''gone'')))
     \<lparr>dependencies = [\<lparr>ecosystem = ''pip'', package = PyStr ''numpy'', version = PyStr ''*'',
                        file' = ''requirements.txt''\<rparr>],
      stderr = [], opened = []\<rparr> =
    (\<lparr>dependencies = [\<lparr>ecosystem = ''pip'', package = PyStr ''numpy'', version = PyStr ''*'',
                        file' = ''requirements.txt''\<rparr>],
      stderr = [], opened = [[''srv'', ''app'', ''go.mod''], [''srv'', ''app'', ''go.mod'']]\<rparr>,
     Some (OSError ''gone'')) \<and>
   dependencies (foldl (scan_file DEPENDENCY_FILES [''srv'', ''app''] [''srv'', ''app''])
     \<lparr>dependencies = [\<lparr>ecosystem = ''pip'', package = PyStr ''numpy'', version = PyStr ''*'',
                        file' = ''requirements.txt''\<rparr>],
      stderr = [], opened = []\<rparr>
     [(''go.mod'', File (Inl (UnicodeDecodeError ''invalid start byte'')) (Inl (OSError ''gone''))),
      (''Gemfile'', File (Inr ''gem "pg"'') (Inr ''gem "pg"''))]) =
   dependencies (foldl (scan_file DEPENDENCY_FILES [''srv'', ''app''] [''srv'', ''app''])
     \<lparr>dependencies = [\<lparr>ecosystem = ''pip'', package = PyStr ''numpy'', version = PyStr ''*'',
                        file' = ''requirements.txt''\<rparr>],
      stderr = [], opened = []\<rparr>
     [(''Gemfile'', File (Inr ''gem "pg"'') (Inr ''gem "pg"''))])\<close>
proof -
  have raised:
    "parse_dependency_file DEPENDENCY_FILES [''srv'', ''app''] ([''srv'', ''app''] @ [''go.mod''])
     ''go.mod'' (File (Inl (UnicodeDecodeError ''invalid start byte'')) (Inl (OSError ''gone'')))
     \<lparr>dependencies = [\<lparr>ecosystem = ''pip'', package = PyStr ''numpy'', version = PyStr ''*'',
                        file' = ''requirements.txt''\<rparr>],
      stderr = [], opened = []\<rparr> =
    (\<lparr>dependencies = [\<lparr>ecosystem = ''pip'', package = PyStr ''numpy'', version = PyStr ''*'',
                        file' = ''requirements.txt''\<rparr>],
      stderr = [], opened = [[''srv'', ''app'', ''go.mod''], [''srv'', ''app'', ''go.mod'']]\<rparr>,
     Some (OSError ''gone''))"
    by (simp add: parse_dependency_file_def DEPENDENCY_FILES_def read_and_parse_def)
  from failing_file_leaves_dependencies [OF raised,
      of \<open>[(''Gemfile'', File (Inr ''gem "pg"'') (Inr ''gem "pg"''))]\<close>] raised
  show ?thesis by simp
qed

section \<open>Which files the scan opens\<close>

lemma scan_with_opened:
  assumes "p \<in> set (opened (scan_with tbl root_path tree))"
  shows "\<exists>dirs filename. p = root_path @ dirs @ [filename] \<and>
           (\<forall>d\<in>set dirs. d \<notin> PRUNE_DIRS) \<and> filename \<in> fst ` set tbl"
proof -
  let ?I = "\<lambda>sc. \<forall>p\<in>set (opened sc). \<exists>dirs filename. p = root_path @ dirs @ [filename] \<and>
           (\<forall>d\<in>set dirs. d \<notin> PRUNE_DIRS) \<and> filename \<in> fst ` set tbl"
  have "?I (scan_dir tbl root_path root_path tree \<lparr>dependencies = [], stderr = [], opened = []\<rparr>)"
  proof (rule scan_dir_invariant [where T = "\<lambda>_. True" and N = "\<lambda>_. True" and I = ?I
        and ?cur0.0 = root_path and dirs = "[]"])
    fix dirs :: "string list" and sc :: scanner and entry :: "string \<times> fsfile"
    assume dirs: "\<forall>d\<in>set dirs. d \<notin> PRUNE_DIRS \<and> True" and sc: "?I sc"
    obtain filename f where entry: "entry = (filename, f)" by (cases entry)
    from scan_file_effect [of filename tbl root_path "root_path @ dirs" f]
    obtain k msgs recs where k0: "filename \<notin> fst ` set tbl \<longrightarrow> k = 0"
      and eff: "\<And>sc. scan_file tbl root_path (root_path @ dirs) sc (filename, f) =
        sc\<lparr>opened := opened sc @ replicate k ((root_path @ dirs) @ [filename]),
           dependencies := dependencies sc @ recs, stderr := stderr sc @ msgs\<rparr>"
      by blast
    have k: "filename \<notin> fst ` set tbl \<longrightarrow> k = 0"
      "opened (scan_file tbl root_path (root_path @ dirs) sc entry) =
         opened sc @ replicate k ((root_path @ dirs) @ [filename])"
      using k0 by (simp_all add: entry eff)
    show "?I (scan_file tbl root_path (root_path @ dirs) sc entry)"
    proof
      fix p assume "p \<in> set (opened (scan_file tbl root_path (root_path @ dirs) sc entry))"
      with k(2) consider "p \<in> set (opened sc)" | "0 < k" "p = root_path @ dirs @ [filename]"
        by (cases k) auto
      then show "\<exists>dirs filename. p = root_path @ dirs @ [filename] \<and>
           (\<forall>d\<in>set dirs. d \<notin> PRUNE_DIRS) \<and> filename \<in> fst ` set tbl"
      proof cases
        case 1
        with sc show ?thesis by blast
      next
        case 2
        with k(1) dirs show ?thesis by blast
      qed
    qed
  qed simp_all
  with assms show ?thesis by (simp add: scan_with_def)
qed

text \<open>
  C1, as stated, fails for the directory that is scanned: \<open>os.walk\<close> never tests the
  name of its starting point, nor the names above it. A scan of \<open>/srv/build\<close> reads
  \<open>/srv/build/requirements.txt\<close>, a file beneath a directory whose base name \<open>build\<close> is
  in the prune set.
\<close>

theorem scan_root_named_build_counterexample:
  "''build'' \<in> PRUNE_DIRS \<and>
   [''srv''] @ ''build'' # [''requirements.txt''] \<in>
     set (opened (scan [''srv'', ''build'']
       (Dir [(''requirements.txt'', File (Inr ''numpy'') (Inr ''numpy''))] [])))"
  by code_simp

text \<open>
  C1, amended: for every directory below the scan root whose base name is in the prune
  set (the directory \<open>root_path/up/d\<close>, reached from the root through any names \<open>up\<close>),
  \<open>scan\<close> never opens a path beneath it (\<open>root_path/up/d/down\<close> with \<open>down\<close> not empty), at
  any depth and whatever the name of the file: the pruned names are removed from the
  list of subdirectories before the walk goes down.
\<close>

theorem scan_never_opens_below_pruned_subdirectory:
  assumes "d \<in> PRUNE_DIRS" and "down \<noteq> []"
  shows "root_path @ up @ d # down \<notin> set (opened (scan root_path tree))"
proof
  assume "root_path @ up @ d # down \<in> set (opened (scan root_path tree))"
  from scan_with_opened [OF this [unfolded scan_def]]
  obtain dirs filename where p: "root_path @ up @ d # down = root_path @ dirs @ [filename]"
    and kept: "\<forall>d\<in>set dirs. d \<notin> PRUNE_DIRS"
    by blast
  from p have "up @ d # down = dirs @ [filename]" by simp
  moreover from assms(2) obtain ys y where "down = ys @ [y]"
    by (cases down rule: rev_cases) auto
  ultimately have "(up @ d # ys) @ [y] = dirs @ [filename]" by simp
  then have "dirs = up @ d # ys" by (simp only: append1_eq_conv)
  then have "d \<in> set dirs" by simp
  with kept assms(1) show False by blast
qed

text \<open>A \<open>package.json\<close> two levels below \<open>web/node_modules\<close> is not opened; the one in
  \<open>web\<close> is.\<close>

theorem scan_never_opens_below_pruned_subdirectory_witness:
  "''node_modules'' \<in> PRUNE_DIRS \<and>
   [''srv'', ''app''] @ [''web''] @ ''node_modules'' # [''left-pad'', ''package.json''] \<notin>
     set (opened (scan [''srv'', ''app'']
       (Dir [] [(''web'', Dir [(''package.json'', File (Inr ''{}'') (Inr ''{}''))]
          [(''node_modules'', Dir []
             [(''left-pad'', Dir [(''package.json'', File (Inr ''{}'') (Inr ''{}''))] [])])])]))) \<and>
   opened (scan [''srv'', ''app'']
       (Dir [] [(''web'', Dir [(''package.json'', File (Inr ''{}'') (Inr ''{}''))]
          [(''node_modules'', Dir []
             [(''left-pad'', Dir [(''package.json'', File (Inr ''{}'') (Inr ''{}''))] [])])])])) =
     [[''srv'', ''app'', ''web'', ''package.json'']]"
proof -
  have pruned: "''node_modules'' \<in> PRUNE_DIRS" by (simp add: PRUNE_DIRS_def)
  have "opened (scan [''srv'', ''app'']
       (Dir [] [(''web'', Dir [(''package.json'', File (Inr ''{}'') (Inr ''{}''))]
          [(''node_modules'', Dir []
             [(''left-pad'', Dir [(''package.json'', File (Inr ''{}'') (Inr ''{}''))] [])])])])) =
     [[''srv'', ''app'', ''web'', ''package.json'']]"
    by code_simp
  with pruned scan_never_opens_below_pruned_subdirectory [OF pruned,
      of "[''left-pad'', ''package.json'']" "[''srv'', ''app'']" "[''web'']"]
  show ?thesis by simp
qed

section \<open>The records of a scan\<close>

lemma join_with_not_absolute:
  assumes "xs \<noteq> []" and "hd xs \<noteq> []" and "hd (hd xs) \<noteq> CHR ''/''"
  shows "\<not> startswith (join_with (CHR ''/'') xs) ''/''"
proof -
  from assms obtain c cs rest where xs: "xs = (c # cs) # rest" and c: "c \<noteq> CHR ''/''"
    by (cases xs; cases "hd xs") auto
  then show ?thesis
    by (cases rest) (simp_all add: startswith_def)
qed

lemma dependency_file_names:
  "filename \<in> fst ` set DEPENDENCY_FILES \<Longrightarrow> filename \<noteq> [] \<and> hd filename \<noteq> CHR ''/''"
  by (auto simp: DEPENDENCY_FILES_def)

lemma records_of_below_root:
  assumes "r \<in> set (records_of eco root_path (root_path @ dirs @ [filename]) ds)"
  shows "\<exists>name ver. (name, ver) \<in> set ds \<and> package r = name \<and>
           file' r = join_with (CHR ''/'') (dirs @ [filename])"
  using assms by (auto simp: records_of_def relative_to_def rel_str_def)

lemma scan_records:
  assumes "valid_tree tree" and "r \<in> set (dependencies (scan root_path tree))"
  shows "(\<exists>s. package r = PyStr s \<and> s \<noteq> []) \<and>
         (\<exists>dirs filename. (\<forall>d\<in>set dirs. valid_name d) \<and>
            filename \<in> fst ` set DEPENDENCY_FILES \<and>
            file' r = join_with (CHR ''/'') (dirs @ [filename]))"
proof -
  let ?ok = "\<lambda>r. (\<exists>s. package r = PyStr s \<and> s \<noteq> []) \<and>
         (\<exists>dirs filename. (\<forall>d\<in>set dirs. valid_name d) \<and>
            filename \<in> fst ` set DEPENDENCY_FILES \<and>
            file' r = join_with (CHR ''/'') (dirs @ [filename]))"
  let ?I = "\<lambda>sc. \<forall>r\<in>set (dependencies sc). ?ok r"
  have "?I (scan_dir DEPENDENCY_FILES root_path root_path tree
              \<lparr>dependencies = [], stderr = [], opened = []\<rparr>)"
  proof (rule scan_dir_invariant [where T = valid_tree and N = valid_name and I = ?I
        and ?cur0.0 = root_path and dirs = "[]"])
    fix files subs d sub
    assume "valid_tree (Dir files subs)" and "(d, sub) \<in> set subs"
    then show "valid_tree sub \<and> valid_name d" by auto
  next
    fix dirs :: "string list" and sc :: scanner and entry :: "string \<times> fsfile"
    assume dirs: "\<forall>d\<in>set dirs. d \<notin> PRUNE_DIRS \<and> valid_name d" and sc: "?I sc"
    obtain filename f where entry: "entry = (filename, f)" by (cases entry)
    from scan_file_effect [of filename DEPENDENCY_FILES root_path "root_path @ dirs" f]
    obtain k msgs recs where
      eff: "\<And>sc. scan_file DEPENDENCY_FILES root_path (root_path @ dirs) sc (filename, f) =
        sc\<lparr>opened := opened sc @ replicate k ((root_path @ dirs) @ [filename]),
           dependencies := dependencies sc @ recs, stderr := stderr sc @ msgs\<rparr>"
      and origin: "\<forall>r\<in>set recs. \<exists>eco parse content ds.
        (filename, eco, parse) \<in> set DEPENDENCY_FILES \<and> parse content = Inr ds \<and>
        r \<in> set (records_of eco root_path ((root_path @ dirs) @ [filename]) ds)"
      by blast
    have "?ok r" if "r \<in> set recs" for r
    proof -
      from origin that obtain eco parse content ds where
        entry_of: "(filename, eco, parse) \<in> set DEPENDENCY_FILES" and
        parsed: "parse content = Inr ds" and
        r: "r \<in> set (records_of eco root_path (root_path @ dirs @ [filename]) ds)"
        by auto
      from records_of_below_root [OF r] obtain name ver where
        pair: "(name, ver) \<in> set ds" and name: "package r = name"
        and rfile: "file' r = join_with (CHR ''/'') (dirs @ [filename])"
        by blast
      from dependency_files_named [OF entry_of parsed] pair have "named (name, ver)" by blast
      with name have "\<exists>s. package r = PyStr s \<and> s \<noteq> []" by (simp add: named_def)
      moreover from entry_of have "filename \<in> fst ` set DEPENDENCY_FILES" by force
      ultimately show ?thesis using dirs rfile by blast
    qed
    with sc show "?I (scan_file DEPENDENCY_FILES root_path (root_path @ dirs) sc entry)"
      by (auto simp: entry eff)
  qed (use assms(1) in simp_all)
  with assms(2) show ?thesis by (simp add: scan_def scan_with_def)
qed

text \<open>
  C4: in a tree whose directory names are well formed, every record that a scan appends
  has a \<open>package\<close> that is a string and not empty, and a \<open>file\<close> that is a relative path:
  it does not start with a slash, being the names of the directories walked from the
  root, each not empty and without slash, and the name of the manifest, joined by
  slashes. All nine parsers (and the five that return nothing) are covered, since the
  scan is taken with the whole table \<open>DEPENDENCY_FILES\<close>.
\<close>

theorem scanned_record_has_name_and_relative_file:
  assumes "valid_tree tree" and "r \<in> set (dependencies (scan root_path tree))"
  shows "(\<exists>s. package r = PyStr s \<and> s \<noteq> []) \<and>
         \<not> startswith (file' r) ''/'' \<and>
         (\<exists>dirs filename. (\<forall>d\<in>set dirs. valid_name d) \<and>
            filename \<in> fst ` set DEPENDENCY_FILES \<and>
            file' r = join_with (CHR ''/'') (dirs @ [filename]))"
proof -
  from scan_records [OF assms] obtain s dirs filename where
    name: "package r = PyStr s" "s \<noteq> []" and dirs: "\<forall>d\<in>set dirs. valid_name d" and
    filename: "filename \<in> fst ` set DEPENDENCY_FILES" and
    rfile: "file' r = join_with (CHR ''/'') (dirs @ [filename])"
    by blast
  have "hd (dirs @ [filename]) \<noteq> [] \<and> hd (hd (dirs @ [filename])) \<noteq> CHR ''/''"
  proof (cases dirs)
    case Nil
    with dependency_file_names [OF filename] show ?thesis by simp
  next
    case (Cons d ds)
    with dirs have "valid_name d" by simp
    then have "d \<noteq> [] \<and> hd d \<noteq> CHR ''/''"
      by (cases d) (auto simp: valid_name_def)
    with Cons show ?thesis by simp
  qed
  then have "\<not> startswith (file' r) ''/''"
    unfolding rfile by (intro join_with_not_absolute) simp_all
  with name dirs filename rfile show ?thesis by blast
qed

text \<open>A \<open>Cargo.toml\<close> in the subdirectory \<open>web\<close> of the root \<open>/srv/app\<close>.\<close>

theorem scanned_record_has_name_and_relative_file_witness:
  \<open>valid_tree (Dir [] [(''web'', Dir [(''Cargo.toml'',
       File (Inr ''[dependencies]\<newline>serde = "1.0"'') (Inr ''''))] [])]) \<and>
   dependencies (scan [''srv'', ''app'']
     (Dir [] [(''web'', Dir [(''Cargo.toml'',
       File (Inr ''[dependencies]\<newline>serde = "1.0"'') (Inr ''''))] [])])) =
     [\<lparr>ecosystem = ''cargo'', package = PyStr ''serde'', version = PyStr ''1.0'',
       file' = ''web/Cargo.toml''\<rparr>] \<and>
   \<not> startswith ''web/Cargo.toml'' ''/''\<close>
proof -
  have tree: \<open>valid_tree (Dir [] [(''web'', Dir [(''Cargo.toml'',
       File (Inr ''[dependencies]\<newline>serde = "1.0"'') (Inr ''''))] [])])\<close>
    by (simp add: valid_name_def)
  have found: \<open>dependencies (scan [''srv'', ''app'']
     (Dir [] [(''web'', Dir [(''Cargo.toml'',
       File (Inr ''[dependencies]\<newline>serde = "1.0"'') (Inr ''''))] [])])) =
     [\<lparr>ecosystem = ''cargo'', package = PyStr ''serde'', version = PyStr ''1.0'',
       file' = ''web/Cargo.toml''\<rparr>]\<close>
    by code_simp
  from scanned_record_has_name_and_relative_file [OF tree,
      of \<open>\<lparr>ecosystem = ''cargo'', package = PyStr ''serde'', version = PyStr ''1.0'',
           file' = ''web/Cargo.toml''\<rparr>\<close> \<open>[''srv'', ''app'']\<close>] tree found
  show ?thesis by simp
qed

section \<open>The exit status\<close>




end
